theory Spec2Isabelle
  imports Main "HOL-Library.Word" "HOL-Library.Sublist" "HOL-Library.List_Lexorder"
begin

unbundle bit_operations_syntax

chapter \<open>A bilingual boolean retrieval engine: embedding of the sources\<close>

text \<open>
  The development embeds four programs of the repository:
  \<^item> \<^verbatim>\<open>lab3/tokenize.cpp\<close>, first unit: the UTF-8 codec and the codepoint-level tokenizer;
  \<^item> \<^verbatim>\<open>lab3/tokenize.cpp\<close>, last unit (\<^verbatim>\<open>bool_index\<close>): the byte-level tokenizer, the
    term table, the per-document seen set, the index writer and the \<^verbatim>\<open>lookup\<close> command;
  \<^item> \<^verbatim>\<open>lab7/bool_search.cpp\<close>: the index reader and the query evaluator;
  \<^item> the stemmer (\<^verbatim>\<open>stem_en\<close>).

  Bytes (\<^verbatim>\<open>unsigned char\<close>) are \<open>8 word\<close>, \<^verbatim>\<open>uint32_t\<close> is \<open>32 word\<close>, \<^verbatim>\<open>uint64_t\<close> is
  \<open>64 word\<close>; a \<^verbatim>\<open>std::string\<close> is a list of bytes. The C strings of the stemmer are
  \<open>string\<close>s (lists of 8-bit characters without the terminating NUL).
\<close>

type_synonym byte = "8 word"
type_synonym u32 = "32 word"
type_synonym u64 = "64 word"

text \<open>Reading a string literal as bytes, for concrete inputs.\<close>

definition bytes_of :: "string \<Rightarrow> byte list" where
  "bytes_of s = map (\<lambda>c. of_nat (of_char c)) s"

text \<open>
  \<^verbatim>\<open>die(msg)\<close> prints the message and ends the process with exit code 2; a command line
  that lacks an argument prints the usage text and also returns 2.
\<close>

datatype error = Die string | Usage

section \<open>Codec (lab3/tokenize.cpp)\<close>

definition is_ascii_upper :: "u32 \<Rightarrow> bool" where
  "is_ascii_upper cp \<longleftrightarrow> 0x41 \<le> cp \<and> cp \<le> 0x5A"

definition is_ascii_digit :: "u32 \<Rightarrow> bool" where
  "is_ascii_digit cp \<longleftrightarrow> 0x30 \<le> cp \<and> cp \<le> 0x39"

definition is_cyr_upper :: "u32 \<Rightarrow> bool" where
  "is_cyr_upper cp \<longleftrightarrow> (0x0410 \<le> cp \<and> cp \<le> 0x042F) \<or> cp = 0x0401"

definition is_cyr_lower :: "u32 \<Rightarrow> bool" where
  "is_cyr_lower cp \<longleftrightarrow> (0x0430 \<le> cp \<and> cp \<le> 0x044F) \<or> cp = 0x0451"

definition is_greek :: "u32 \<Rightarrow> bool" where
  "is_greek cp \<longleftrightarrow> 0x0370 \<le> cp \<and> cp \<le> 0x03FF"

definition to_lower_cp :: "u32 \<Rightarrow> u32" where
  "to_lower_cp cp =
    (if is_ascii_upper cp then cp + 32
     else if 0x0410 \<le> cp \<and> cp \<le> 0x042F then cp + 32
     else if cp = 0x0401 then 0x0451
     else cp)"

definition is_letter :: "u32 \<Rightarrow> bool" where
  "is_letter cp \<longleftrightarrow>
    (if (0x61 \<le> cp \<and> cp \<le> 0x7A) \<or> (0x41 \<le> cp \<and> cp \<le> 0x5A) then True
     else if is_cyr_lower cp \<or> is_cyr_upper cp then True
     else if is_greek cp then True
     else if cp = 0x00B5 then True
     else False)"

definition is_alnum :: "u32 \<Rightarrow> bool" where
  "is_alnum cp \<longleftrightarrow> is_letter cp \<or> is_ascii_digit cp"

definition is_hyphen :: "u32 \<Rightarrow> bool" where
  "is_hyphen cp \<longleftrightarrow> cp = 0x002D \<or> cp = 0x2010 \<or> cp = 0x2011 \<or> cp = 0x2012 \<or> cp = 0x2212"

definition is_apostrophe :: "u32 \<Rightarrow> bool" where
  "is_apostrophe cp \<longleftrightarrow> cp = 0x0027 \<or> cp = 0x2019"

text \<open>
  \<^verbatim>\<open>decode_utf8_next(s, i, out_cp)\<close>: \<open>None\<close> is the \<^verbatim>\<open>false\<close> return (\<open>i\<close> is not below the
  size); otherwise the result carries the codepoint and the advanced index.
\<close>

definition decode_utf8_next :: "byte list \<Rightarrow> nat \<Rightarrow> (u32 \<times> nat) option" where
  "decode_utf8_next s i =
    (if i \<ge> length s then None
     else let c0 = s ! i in
       if c0 < 0x80 then Some (ucast c0, i + 1)
       else if c0 AND 0xE0 = 0xC0 then
         (if i + 1 \<ge> length s then Some (0xFFFD, i + 1)
          else let c1 = s ! (i + 1) in
            if c1 AND 0xC0 \<noteq> 0x80 then Some (0xFFFD, i + 1)
            else Some (push_bit 6 (ucast (c0 AND 0x1F)) OR ucast (c1 AND 0x3F), i + 2))
       else if c0 AND 0xF0 = 0xE0 then
         (if i + 2 \<ge> length s then Some (0xFFFD, i + 1)
          else let c1 = s ! (i + 1); c2 = s ! (i + 2) in
            if c1 AND 0xC0 \<noteq> 0x80 \<or> c2 AND 0xC0 \<noteq> 0x80 then Some (0xFFFD, i + 1)
            else Some (push_bit 12 (ucast (c0 AND 0x0F)) OR push_bit 6 (ucast (c1 AND 0x3F))
                        OR ucast (c2 AND 0x3F), i + 3))
       else if c0 AND 0xF8 = 0xF0 then
         (if i + 3 \<ge> length s then Some (0xFFFD, i + 1)
          else let c1 = s ! (i + 1); c2 = s ! (i + 2); c3 = s ! (i + 3) in
            if c1 AND 0xC0 \<noteq> 0x80 \<or> c2 AND 0xC0 \<noteq> 0x80 \<or> c3 AND 0xC0 \<noteq> 0x80
            then Some (0xFFFD, i + 1)
            else Some (push_bit 18 (ucast (c0 AND 0x07)) OR push_bit 12 (ucast (c1 AND 0x3F))
                        OR push_bit 6 (ucast (c2 AND 0x3F)) OR ucast (c3 AND 0x3F), i + 4))
       else Some (0xFFFD, i + 1))"

text \<open>\<^verbatim>\<open>append_utf8(out, cp)\<close>, as the bytes it pushes.\<close>

definition append_utf8 :: "u32 \<Rightarrow> byte list" where
  "append_utf8 cp =
    (if cp \<le> 0x7F then [ucast cp]
     else if cp \<le> 0x7FF then
       [0xC0 OR ucast (drop_bit 6 cp AND 0x1F), 0x80 OR ucast (cp AND 0x3F)]
     else if cp \<le> 0xFFFF then
       [0xE0 OR ucast (drop_bit 12 cp AND 0x0F), 0x80 OR ucast (drop_bit 6 cp AND 0x3F),
        0x80 OR ucast (cp AND 0x3F)]
     else
       [0xF0 OR ucast (drop_bit 18 cp AND 0x07), 0x80 OR ucast (drop_bit 12 cp AND 0x3F),
        0x80 OR ucast (drop_bit 6 cp AND 0x3F), 0x80 OR ucast (cp AND 0x3F)])"

text \<open>
  What the specification calls a malformed sequence: the lead byte announces a sequence
  of two, three or four bytes, and the sequence is truncated by the end of the input or
  one of its continuation bytes is not of the form \<^verbatim>\<open>10xxxxxx\<close>.
\<close>

definition seq_len :: "byte \<Rightarrow> nat" where
  "seq_len c0 =
    (if c0 AND 0xE0 = 0xC0 then 2 else if c0 AND 0xF0 = 0xE0 then 3
     else if c0 AND 0xF8 = 0xF0 then 4 else 1)"

definition malformed :: "byte list \<Rightarrow> nat \<Rightarrow> bool" where
  "malformed s i \<longleftrightarrow>
    1 < seq_len (s ! i) \<and>
    (length s < i + seq_len (s ! i) \<or>
     (\<exists>k \<in> set [1 ..< seq_len (s ! i)]. s ! (i + k) AND 0xC0 \<noteq> 0x80))"

section \<open>English stemmer\<close>

definition ends_with_bytes :: "string \<Rightarrow> string \<Rightarrow> bool" where
  "ends_with_bytes s suf =
    (let n = length s; m = length suf in
     if m > n then False else drop (n - m) s = suf)"

definition cut_suffix :: "string \<Rightarrow> nat \<Rightarrow> string" where
  "cut_suffix s suf_len =
    (let n = length s in if suf_len > n then s else take (n - suf_len) s)"

definition is_vowel_en :: "char \<Rightarrow> bool" where
  "is_vowel_en c \<longleftrightarrow>
    c = CHR ''a'' \<or> c = CHR ''e'' \<or> c = CHR ''i'' \<or> c = CHR ''o'' \<or> c = CHR ''u''"

text \<open>The loop of \<^verbatim>\<open>has_vowel_en\<close>, with the index \<open>i\<close> of the character read.\<close>

fun has_vowel_from :: "nat \<Rightarrow> string \<Rightarrow> bool" where
  "has_vowel_from i [] = False"
| "has_vowel_from i (c # cs) =
    (if is_vowel_en c then True
     else if c = CHR ''y'' \<and> i > 0 then True
     else has_vowel_from (i + 1) cs)"

definition has_vowel_en :: "string \<Rightarrow> bool" where
  "has_vowel_en s = has_vowel_from 0 s"

text \<open>
  \<^verbatim>\<open>c < 'a' || c > 'z'\<close> compares \<^verbatim>\<open>char\<close>s; whether \<^verbatim>\<open>char\<close> is signed or not, a byte of
  \<open>0x80\<close> or more is outside the range.
\<close>

definition is_consonant_en :: "char \<Rightarrow> bool" where
  "is_consonant_en c =
    (if (of_char c :: nat) < 97 \<or> (of_char c :: nat) > 122 then False
     else \<not> is_vowel_en c \<and> c \<noteq> CHR ''y'')"

definition ends_with_double_consonant_en :: "string \<Rightarrow> bool" where
  "ends_with_double_consonant_en s =
    (let n = length s in
     if n < 2 then False
     else let a = s ! (n - 1); b = s ! (n - 2) in
       if a \<noteq> b then False else is_consonant_en a)"

text \<open>
  \<^verbatim>\<open>stem_en\<close> rewrites its buffer in five steps and has early \<^verbatim>\<open>return\<close>s (a token of
  512 bytes or more does not fit \<^verbatim>\<open>tmp\<close>). A step yields \<open>Inl t\<close> when the function
  returns there with the buffer holding \<open>t\<close>, and \<open>Inr t\<close> when it goes on.
\<close>

definition stem_en_plural :: "string \<Rightarrow> string + string" where
  "stem_en_plural tok =
    (let n = length tok in
     if ends_with_bytes tok ''sses'' then Inr (cut_suffix tok 2)
     else if ends_with_bytes tok ''ies'' then Inr (cut_suffix tok 2)
     else if ends_with_bytes tok ''ss'' then Inr tok
     else if ends_with_bytes tok ''s'' \<and> n > 3 then
       (if n \<ge> 512 then Inl tok
        else let tmp = take (n - 1) tok in
          if has_vowel_en tmp then Inr (cut_suffix tok 1) else Inr tok)
     else Inr tok)"

definition stem_en_verb :: "string \<Rightarrow> string + string" where
  "stem_en_verb tok =
    (if ends_with_bytes tok ''eed'' then
       (if length tok > 4 then Inr (take (length tok - 1) tok) else Inr tok)
     else if ends_with_bytes tok ''ed'' then
       (if length tok \<ge> 512 then Inl tok
        else let tmp = cut_suffix tok 2 in
          if has_vowel_en tmp then Inr (cut_suffix tok 2) else Inr tok)
     else if ends_with_bytes tok ''ing'' then
       (if length tok \<ge> 512 then Inl tok
        else let tmp = cut_suffix tok 3 in
          if has_vowel_en tmp then Inr (cut_suffix tok 3) else Inr tok)
     else Inr tok)"

definition stem_en_tail :: "string \<Rightarrow> string" where
  "stem_en_tail tok =
    (let n = length tok in
     if n \<ge> 2 then
       (let tail2 = drop (n - 2) tok in
        if tail2 = ''at'' \<or> tail2 = ''bl'' \<or> tail2 = ''iz'' then
          (if n + 1 < 512 then tok @ ''e'' else tok)
        else tok)
     else tok)"

definition stem_en_double :: "string \<Rightarrow> string" where
  "stem_en_double tok =
    (let n = length tok in
     if ends_with_double_consonant_en tok then
       (let last = tok ! (n - 1) in
        if last \<noteq> CHR ''l'' \<and> last \<noteq> CHR ''s'' \<and> last \<noteq> CHR ''z'' then take (n - 1) tok
        else tok)
     else tok)"

definition stem_en_y :: "string \<Rightarrow> string" where
  "stem_en_y tok =
    (let n = length tok in
     if n \<ge> 2 \<and> tok ! (n - 1) = CHR ''y'' then
       (if n \<ge> 512 then tok
        else let tmp = take (n - 1) tok in
          if has_vowel_en tmp then tok[n - 1 := CHR ''i''] else tok)
     else tok)"

definition stem_en :: "string \<Rightarrow> string" where
  "stem_en tok =
    (if length tok < 3 then tok
     else case stem_en_plural tok of
       Inl r \<Rightarrow> r
     | Inr t1 \<Rightarrow>
        if length t1 < 3 then t1
        else case stem_en_verb t1 of
          Inl r \<Rightarrow> r
        | Inr t2 \<Rightarrow> stem_en_y (stem_en_double (stem_en_tail t2)))"

text \<open>The last three steps of \<^verbatim>\<open>stem_en\<close>, which have no early \<^verbatim>\<open>return\<close>.\<close>

definition tail_phase :: "string \<Rightarrow> string" where
  "tail_phase v = stem_en_y (stem_en_double (stem_en_tail v))"

text \<open>
  The tests the rules make, read off a token. \<open>cuts_s\<close>: the plural step cuts the final
  \<open>s\<close>. \<open>cuts_eed\<close>, \<open>cuts_ed\<close>, \<open>cuts_ing\<close>: the verb step cuts the \<open>d\<close> of \<open>eed\<close>, or
  \<open>ed\<close>, or \<open>ing\<close>. \<open>adds_e\<close>, \<open>drops_double\<close>, \<open>turns_y\<close>: the last three steps append
  \<open>e\<close>, drop one letter of a doubled final consonant, turn the final \<open>y\<close> into \<open>i\<close>.
\<close>

definition cuts_s :: "string \<Rightarrow> bool" where
  "cuts_s t \<longleftrightarrow> 3 < length t \<and> length t < 512 \<and> ends_with_bytes t ''s''
     \<and> \<not> ends_with_bytes t ''sses'' \<and> \<not> ends_with_bytes t ''ies''
     \<and> \<not> ends_with_bytes t ''ss'' \<and> has_vowel_en (butlast t)"

definition cuts_eed :: "string \<Rightarrow> bool" where
  "cuts_eed x \<longleftrightarrow> ends_with_bytes x ''eed'' \<and> 4 < length x"

definition cuts_ed :: "string \<Rightarrow> bool" where
  "cuts_ed x \<longleftrightarrow> length x < 512 \<and> ends_with_bytes x ''ed'' \<and> \<not> ends_with_bytes x ''eed''
     \<and> has_vowel_en (cut_suffix x 2)"

definition cuts_ing :: "string \<Rightarrow> bool" where
  "cuts_ing x \<longleftrightarrow> length x < 512 \<and> ends_with_bytes x ''ing'' \<and> has_vowel_en (cut_suffix x 3)"

definition adds_e :: "string \<Rightarrow> bool" where
  "adds_e z \<longleftrightarrow> length z + 1 < 512 \<and>
     (ends_with_bytes z ''at'' \<or> ends_with_bytes z ''bl'' \<or> ends_with_bytes z ''iz'')"

definition drops_double :: "string \<Rightarrow> bool" where
  "drops_double z \<longleftrightarrow> ends_with_double_consonant_en z
     \<and> last z \<noteq> CHR ''l'' \<and> last z \<noteq> CHR ''s'' \<and> last z \<noteq> CHR ''z''"

definition turns_y :: "string \<Rightarrow> bool" where
  "turns_y w \<longleftrightarrow> 2 \<le> length w \<and> length w < 512 \<and> ends_with_bytes w ''y''
     \<and> has_vowel_en (butlast w)"

text \<open>
  A rule applies to a token of three characters or more when one of these tests holds or
  the token ends in \<open>sses\<close> or \<open>ies\<close>.
\<close>

definition rule_applies :: "string \<Rightarrow> bool" where
  "rule_applies u \<longleftrightarrow> 3 \<le> length u \<and>
     (ends_with_bytes u ''sses'' \<or> ends_with_bytes u ''ies'' \<or> cuts_s u \<or> cuts_eed u
      \<or> cuts_ed u \<or> cuts_ing u \<or> adds_e u \<or> drops_double u \<or> turns_y u)"

text \<open>
  What the first pass leaves of a token when it cuts: the token without the \<open>s\<close> the plural
  step cuts, then without the \<open>ed\<close> or \<open>ing\<close> the verb step cuts, then without one letter
  of a doubled final consonant. \<open>restrips t\<close>: the first pass cuts \<open>ed\<close>, \<open>ing\<close> or a doubled
  consonant from \<open>t\<close>, appends no \<open>e\<close> and turns no \<open>y\<close> into \<open>i\<close>, and a rule applies to
  the word it leaves.
\<close>

definition cut_s :: "string \<Rightarrow> string" where
  "cut_s t = (if cuts_s t then butlast t else t)"

definition cut_verb :: "string \<Rightarrow> string" where
  "cut_verb x = (if cuts_ed x then cut_suffix x 2 else if cuts_ing x then cut_suffix x 3 else x)"

definition cut_word :: "string \<Rightarrow> string" where
  "cut_word t = (let v = cut_verb (cut_s t) in if drops_double v then butlast v else v)"

definition restrips :: "string \<Rightarrow> bool" where
  "restrips t \<longleftrightarrow> cut_word t \<noteq> cut_s t \<and> \<not> adds_e (cut_verb (cut_s t))
     \<and> \<not> turns_y (cut_word t) \<and> rule_applies (cut_word t)"

section \<open>Document identifiers (bool_index)\<close>

fun starts_with :: "'a list \<Rightarrow> 'a list \<Rightarrow> bool" where
  "starts_with s [] = True"
| "starts_with [] (p # ps) = False"
| "starts_with (c # cs) (p # ps) = (c = p \<and> starts_with cs ps)"

text \<open>\<^verbatim>\<open>s.find(sub) != std::string::npos\<close>.\<close>

fun contains :: "'a list \<Rightarrow> 'a list \<Rightarrow> bool" where
  "contains [] sub = (sub = [])"
| "contains (c # cs) sub = (starts_with (c # cs) sub \<or> contains cs sub)"

text \<open>
  \<^verbatim>\<open>std::filesystem::path::stem\<close> belongs to the C++ library, not to the repository. On a
  generic-format path: the file name is what follows the last \<^verbatim>\<open>/\<close>; its stem is the file
  name up to its last period, and the whole file name when it has no period, when it is
  \<^verbatim>\<open>.\<close> or \<^verbatim>\<open>..\<close>, or when its only period is its first character.
\<close>

definition path_filename :: "string \<Rightarrow> string" where
  "path_filename p = rev (takeWhile (\<lambda>c. c \<noteq> CHR ''/'') (rev p))"

definition path_stem :: "string \<Rightarrow> string" where
  "path_stem p =
    (let f = path_filename p;
         ext = rev (takeWhile (\<lambda>c. c \<noteq> CHR ''.'') (rev f)) in
     if f = ''.'' \<or> f = ''..'' \<or> CHR ''.'' \<notin> set f then f
     else if length ext + 1 = length f then f
     else take (length f - (length ext + 1)) f)"

definition parse_docid_step :: "u32 \<Rightarrow> char \<Rightarrow> u32" where
  "parse_docid_step v c =
    (if (of_char c :: nat) < 48 \<or> (of_char c :: nat) > 57 then v
     else v * 10 + of_nat (of_char c - 48))"

definition parse_docid_from_name :: "string \<Rightarrow> u32" where
  "parse_docid_from_name p = foldl parse_docid_step 0 (path_stem p)"

definition lang_of_path :: "string \<Rightarrow> string" where
  "lang_of_path ps =
    (if contains ps ''/enwiki/'' then ''en''
     else if contains ps ''/ruwiki/'' then ''ru''
     else ''unk'')"

text \<open>The document identifier \<^verbatim>\<open>build_index\<close> computes for the file at path \<open>p\<close>.\<close>

definition doc_docid :: "string \<Rightarrow> u32" where
  "doc_docid p =
    parse_docid_from_name p + (if lang_of_path p = ''ru'' then 30000 else 0)"

section \<open>Byte-level case folding (bool_index and bool_search)\<close>

definition lower_ascii :: "byte \<Rightarrow> byte" where
  "lower_ascii c = (if 0x41 \<le> c \<and> c \<le> 0x5A then c + 32 else c)"

text \<open>
  The second loop of \<^verbatim>\<open>lowercase_inplace\<close> visits every index \<open>i\<close> with \<open>i + 1\<close> below the
  size, reads \<open>s[i]\<close> and \<open>s[i+1]\<close> and may overwrite both. In the recursion the head of
  the list is \<open>s[i]\<close>; the byte written to \<open>s[i+1]\<close> is the head the next round reads.
\<close>

fun lower_cyr2 :: "byte list \<Rightarrow> byte list" where
  "lower_cyr2 (b0 # b1 # rest) =
    (if b0 = 0xD0 then
       (if 0x90 \<le> b1 \<and> b1 \<le> 0x9F then b0 # lower_cyr2 ((b1 + 0x20) # rest)
        else if 0xA0 \<le> b1 \<and> b1 \<le> 0xAF then 0xD1 # lower_cyr2 ((b1 - 0x20) # rest)
        else if b1 = 0x81 then 0xD1 # lower_cyr2 (0x91 # rest)
        else b0 # lower_cyr2 (b1 # rest))
     else b0 # lower_cyr2 (b1 # rest))"
| "lower_cyr2 [b] = [b]"
| "lower_cyr2 [] = []"

definition lowercase_inplace :: "byte list \<Rightarrow> byte list" where
  "lowercase_inplace s = lower_cyr2 (map lower_ascii s)"

section \<open>Library routines used on the index files\<close>

text \<open>
  \<^verbatim>\<open>std::string::find(c, pos)\<close> and \<^verbatim>\<open>substr(pos, len)\<close>; \<open>None\<close> is \<^verbatim>\<open>npos\<close>.
\<close>

fun find_first :: "'a \<Rightarrow> 'a list \<Rightarrow> nat option" where
  "find_first c [] = None"
| "find_first c (x # xs) = (if x = c then Some 0 else map_option Suc (find_first c xs))"

definition find_from :: "'a \<Rightarrow> 'a list \<Rightarrow> nat \<Rightarrow> nat option" where
  "find_from c s pos =
    (if pos > length s then None else map_option (\<lambda>k. k + pos) (find_first c (drop pos s)))"

definition substr :: "'a list \<Rightarrow> nat \<Rightarrow> nat \<Rightarrow> 'a list" where
  "substr s pos len = take len (drop pos s)"

text \<open>
  \<^verbatim>\<open>strtoul\<close> and \<^verbatim>\<open>strtoull\<close> belong to the C library. In base 10, on a platform where both
  return 64 bits: white space is skipped, a sign is read, then the longest run of digits; a
  value that does not fit gives \<open>2^64 - 1\<close>; a minus sign negates modulo \<open>2^64\<close>.
\<close>

definition is_space_c :: "byte \<Rightarrow> bool" where
  "is_space_c c \<longleftrightarrow> c = 0x20 \<or> (0x09 \<le> c \<and> c \<le> 0x0D)"

definition is_digit_b :: "byte \<Rightarrow> bool" where
  "is_digit_b c \<longleftrightarrow> 0x30 \<le> c \<and> c \<le> 0x39"

definition strtoull :: "byte list \<Rightarrow> nat" where
  "strtoull s =
    (let s1 = dropWhile is_space_c (takeWhile (\<lambda>c. c \<noteq> 0) s);
         neg = (s1 \<noteq> [] \<and> hd s1 = 0x2D);
         s2 = (if s1 \<noteq> [] \<and> (hd s1 = 0x2D \<or> hd s1 = 0x2B) then tl s1 else s1);
         v = foldl (\<lambda>a d. a * 10 + unat (d - 0x30)) 0 (takeWhile is_digit_b s2)
     in if v > 2 ^ 64 - 1 then 2 ^ 64 - 1
        else if neg then (2 ^ 64 - v) mod 2 ^ 64
        else v)"

text \<open>
  The posting file holds \<^verbatim>\<open>uint32_t\<close> values as raw memory; the model fixes the little-endian
  layout of the hosts the programs are built for. Writer and reader use the same layout.
\<close>

definition u32_bytes :: "u32 \<Rightarrow> byte list" where
  "u32_bytes w = [ucast w, ucast (drop_bit 8 w), ucast (drop_bit 16 w), ucast (drop_bit 24 w)]"

fun u32_of_bytes :: "byte list \<Rightarrow> u32" where
  "u32_of_bytes [] = 0"
| "u32_of_bytes (b # bs) = ucast b OR push_bit 8 (u32_of_bytes bs)"

text \<open>
  \<^verbatim>\<open>seekg(off); read(buf, len)\<close> on a stream just opened, into the \<open>n\<close> words of the
  \<^verbatim>\<open>std::vector<uint32_t> docs(df)\<close> of \<^verbatim>\<open>lookup_term\<close>, which the vector has set to 0: the
  words the buffer holds afterwards. Bytes that the file does not deliver stay 0. For
  \<open>len = 4 * n\<close> within the file, which is what the index writer produces, every byte of
  the buffer comes from the file.
\<close>

definition read_u32s :: "byte list \<Rightarrow> nat \<Rightarrow> nat \<Rightarrow> nat \<Rightarrow> u32 list" where
  "read_u32s file off len n =
    (let bytes = take (min len (4 * n)) (drop off file)
     in map (\<lambda>k. u32_of_bytes (take 4 (drop (4 * k) bytes))) [0 ..< n])"

section \<open>Index reader (lab7/bool_search.cpp)\<close>

record DictEntry =
  term_off :: u32
  term_len :: u32
  df :: u32
  post_off :: u64
  post_len :: u64

record DocRec =
  docid :: u32
  lang :: "byte list"
  title :: "byte list"
  url :: "byte list"

text \<open>The field \<open>postings\<close> is the content of the open file \<^verbatim>\<open>postings.bin\<close>.\<close>

record Index =
  term_pool :: "byte list"
  dict :: "DictEntry list"
  postings :: "byte list"
  docs_sorted :: "DocRec list"
  universe :: "u32 list"

definition dict_term_ptr :: "Index \<Rightarrow> DictEntry \<Rightarrow> byte list" where
  "dict_term_ptr ix e = drop (unat (term_off e)) (term_pool ix)"

text \<open>\<^verbatim>\<open>memcmp\<close> on two buffers of the same length; only the sign of the result is used.\<close>

fun memcmp :: "byte list \<Rightarrow> byte list \<Rightarrow> int" where
  "memcmp (a # as) (b # bs) = (if a = b then memcmp as bs else if a < b then - 1 else 1)"
| "memcmp _ _ = 0"

definition term_cmp :: "Index \<Rightarrow> DictEntry \<Rightarrow> byte list \<Rightarrow> int" where
  "term_cmp ix e t =
    (let p = dict_term_ptr ix e;
         n = unat (term_len e);
         m = length t;
         k = min n m;
         c = memcmp (take k p) (take k t)
     in if c \<noteq> 0 then c
        else if n < m then - 1
        else if n > m then 1
        else 0)"

function binsearch_loop :: "Index \<Rightarrow> byte list \<Rightarrow> int \<Rightarrow> int \<Rightarrow> int" where
  "binsearch_loop ix t lo hi =
    (if lo \<le> hi then
       (let mid = lo + (hi - lo) div 2;
            c = term_cmp ix (dict ix ! nat mid) t
        in if c = 0 then mid
           else if c < 0 then binsearch_loop ix t (mid + 1) hi
           else binsearch_loop ix t lo (mid - 1))
     else - 1)"
  by pat_completeness auto
termination
  by (relation "measure (\<lambda>(ix, t, lo, hi). nat (hi - lo + 1))") auto

definition binsearch_term :: "Index \<Rightarrow> byte list \<Rightarrow> int" where
  "binsearch_term ix t = binsearch_loop ix t 0 (int (length (dict ix)) - 1)"

text \<open>
  \<^verbatim>\<open>load_docs\<close> and \<^verbatim>\<open>load_dict\<close>. A file is the list of its lines, \<open>None\<close> when it cannot
  be opened.
\<close>

definition load_docs_line :: "DocRec list \<times> u32 list \<Rightarrow> byte list \<Rightarrow> DocRec list \<times> u32 list" where
  "load_docs_line st line =
    (if line = [] then st
     else case find_from 0x09 line 0 of None \<Rightarrow> st | Some p1 \<Rightarrow>
       (case find_from 0x09 line (p1 + 1) of None \<Rightarrow> st | Some p2 \<Rightarrow>
       (case find_from 0x09 line (p2 + 1) of None \<Rightarrow> st | Some p3 \<Rightarrow>
       (case find_from 0x09 line (p3 + 1) of None \<Rightarrow> st | Some p4 \<Rightarrow>
         (let d = \<lparr> docid = of_nat (strtoull (substr line 0 p1)),
                    lang = substr line (p1 + 1) (p2 - p1 - 1),
                    title = substr line (p2 + 1) (p3 - p2 - 1),
                    url = substr line (p3 + 1) (p4 - p3 - 1) \<rparr>
          in (fst st @ [d], snd st @ [docid d]))))))"

text \<open>
  \<^verbatim>\<open>std::sort\<close> on the records orders them by docid (the order among equal docids is not
  fixed by the library; the model keeps the input order); \<^verbatim>\<open>std::sort\<close> and
  \<^verbatim>\<open>std::unique\<close> on the universe.
\<close>

definition load_docs :: "byte list list option \<Rightarrow> error + (DocRec list \<times> u32 list)" where
  "load_docs file =
    (case file of
       None \<Rightarrow> Inl (Die ''cannot open docs.tsv'')
     | Some lines \<Rightarrow>
        (let st = foldl load_docs_line ([], []) lines
         in Inr (sort_key docid (fst st), remdups_adj (sort (snd st)))))"

definition load_dict_line :: "byte list \<times> DictEntry list \<Rightarrow> byte list \<Rightarrow> byte list \<times> DictEntry list" where
  "load_dict_line st line =
    (if line = [] then st
     else case find_from 0x09 line 0 of None \<Rightarrow> st | Some p1 \<Rightarrow>
       (case find_from 0x09 line (p1 + 1) of None \<Rightarrow> st | Some p2 \<Rightarrow>
       (case find_from 0x09 line (p2 + 1) of None \<Rightarrow> st | Some p3 \<Rightarrow>
         (let term = substr line 0 p1;
              e = \<lparr> term_off = of_nat (length (fst st)),
                    term_len = of_nat (length term),
                    df = of_nat (strtoull (substr line (p1 + 1) (p2 - p1 - 1))),
                    post_off = of_nat (strtoull (substr line (p2 + 1) (p3 - p2 - 1))),
                    post_len = of_nat (strtoull (drop (p3 + 1) line)) \<rparr>
          in (fst st @ term, snd st @ [e])))))"

definition load_dict :: "byte list list option \<Rightarrow> error + (byte list \<times> DictEntry list)" where
  "load_dict file =
    (case file of
       None \<Rightarrow> Inl (Die ''cannot open terms.tsv'')
     | Some lines \<Rightarrow> Inr (foldl load_dict_line ([], []) lines))"

text \<open>The three loading calls of \<^verbatim>\<open>main\<close>, in their order.\<close>

definition load_index ::
  "byte list list option \<Rightarrow> byte list list option \<Rightarrow> byte list option \<Rightarrow> error + Index" where
  "load_index docs_file terms_file postings_file =
    (case load_docs docs_file of Inl e \<Rightarrow> Inl e | Inr (ds, u) \<Rightarrow>
     (case load_dict terms_file of Inl e \<Rightarrow> Inl e | Inr (pool, d) \<Rightarrow>
      (case postings_file of None \<Rightarrow> Inl (Die ''cannot open postings.bin'') | Some bytes \<Rightarrow>
        Inr \<lparr> term_pool = pool, dict = d, postings = bytes, docs_sorted = ds, universe = u \<rparr>)))"

section \<open>Query evaluation (lab7/bool_search.cpp)\<close>

text \<open>
  A \<^verbatim>\<open>PostList\<close> is the list of its \<open>n\<close> elements. The loops run two indices over the
  arrays; the model recurses over what is left of each list. The counters are
  \<^verbatim>\<open>uint32_t\<close>: the model is that of lists shorter than \<open>2^31\<close>.
\<close>

text \<open>
  \<^verbatim>\<open>ix.postings\<close> is one \<^verbatim>\<open>std::ifstream\<close> for the whole run. The index holds its content;
  the state threaded through the evaluation holds its failbit and the number of blocks
  \<^verbatim>\<open>load_postings\<close> has allocated. \<open>junk k i\<close> is byte \<open>i\<close> of the \<open>k\<close>-th of these blocks as
  \<^verbatim>\<open>malloc\<close> returns it: the block is not initialised.

  \<^verbatim>\<open>load_postings\<close> allocates \<open>4 * df\<close> bytes and calls \<^verbatim>\<open>seekg(post_off)\<close> and
  \<^verbatim>\<open>read(buf, post_len)\<close> without a check. Once the failbit is set both calls do nothing and
  the block stays as \<^verbatim>\<open>malloc\<close> gave it; an offset that is negative as a \<^verbatim>\<open>std::streamoff\<close>
  makes \<^verbatim>\<open>seekg\<close> set it. Otherwise \<^verbatim>\<open>read\<close> stores the bytes the file delivers from the
  offset on, at most \<open>post_len\<close>, at the start of the block, and sets the failbit when they
  are fewer than \<open>post_len\<close>. Storing more bytes than the block holds is a write past its
  end, and a count that is negative as a \<^verbatim>\<open>std::streamsize\<close> is outside what \<^verbatim>\<open>read\<close>
  specifies: the result is \<open>None\<close> for both. The result is the \<open>df\<close> words of the block.
\<close>

record Reader =
  failbit :: bool
  blocks :: nat

definition block_words :: "nat \<Rightarrow> byte list \<Rightarrow> u32 list" where
  "block_words n bytes = map (\<lambda>k. u32_of_bytes (take 4 (drop (4 * k) bytes))) [0 ..< n]"

definition load_postings ::
  "(nat \<Rightarrow> nat \<Rightarrow> byte) \<Rightarrow> Index \<Rightarrow> Reader \<Rightarrow> byte list \<Rightarrow> (u32 list \<times> Reader) option" where
  "load_postings junk ix rd t =
    (let pos = binsearch_term ix t in
     if pos < 0 then Some ([], rd)
     else let e = dict ix ! nat pos in
       if df e = 0 \<or> post_len e = 0 then Some ([], rd)
       else
         (let n = unat (df e);
              block = map (junk (blocks rd)) [0 ..< 4 * n]
          in if failbit rd \<or> sint (post_off e) < 0 then
               Some (block_words n block, \<lparr> failbit = True, blocks = blocks rd + 1 \<rparr>)
             else if sint (post_len e) < 0 then None
             else
               (let got = take (unat (post_len e)) (drop (unat (post_off e)) (postings ix))
                in if length got > 4 * n then None
                   else Some (block_words n (got @ drop (length got) block),
                              \<lparr> failbit = (length got < unat (post_len e)),
                                blocks = blocks rd + 1 \<rparr>))))"

fun and_loop :: "u32 list \<Rightarrow> u32 list \<Rightarrow> u32 list" where
  "and_loop (a # as) (b # bs) =
    (if a = b then a # and_loop as bs
     else if a < b then and_loop as (b # bs)
     else and_loop (a # as) bs)"
| "and_loop _ _ = []"

definition op_and :: "u32 list \<Rightarrow> u32 list \<Rightarrow> u32 list" where
  "op_and A B = (if A = [] \<or> B = [] then [] else and_loop A B)"


fun not_loop :: "u32 list \<Rightarrow> u32 list \<Rightarrow> u32 list" where
  "not_loop [] B = []"
| "not_loop (u # us) B =
    (let B' = dropWhile (\<lambda>b. b < u) B in
     if B' \<noteq> [] \<and> hd B' = u then not_loop us B' else u # not_loop us B')"

definition op_not :: "u32 list \<Rightarrow> u32 list \<Rightarrow> u32 list" where
  "op_not U B = (if U = [] then [] else not_loop U B)"






text \<open>A line of a \<^verbatim>\<open>.tsv\<close> file from its fields, for concrete inputs.\<close>

fun tsv_line :: "string list \<Rightarrow> byte list" where
  "tsv_line [] = []"
| "tsv_line [f] = bytes_of f"
| "tsv_line (f # fs) = bytes_of f @ 0x09 # tsv_line fs"

section \<open>Codepoint-level tokenizer (lab3/tokenize.cpp)\<close>

text \<open>
  The tokenizer counts and prints the tokens it flushes; the model returns them in the
  order of emission. \<open>out\<close> holds the tokens emitted so far, \<open>tok\<close> the pending one.
\<close>

definition flush_tok :: "byte list \<Rightarrow> byte list list \<Rightarrow> byte list list" where
  "flush_tok tok out = (if tok \<noteq> [] then out @ [tok] else out)"

function tokenize_cp_loop ::
  "byte list \<Rightarrow> nat \<Rightarrow> byte list \<Rightarrow> byte list list \<Rightarrow> byte list list" where
  "tokenize_cp_loop line i tok out =
    (if i < length line then
       (case decode_utf8_next line i of
          None \<Rightarrow> flush_tok tok out
        | Some (cp, j) \<Rightarrow>
           (let nxt = decode_utf8_next line j;
                has_next = (nxt \<noteq> None);
                next = (case nxt of None \<Rightarrow> 0 | Some (n, k) \<Rightarrow> n)
            in if is_alnum cp then
                 tokenize_cp_loop line j (tok @ append_utf8 (to_lower_cp cp)) out
               else if is_hyphen cp \<and> tok \<noteq> [] \<and> has_next \<and> is_alnum next then
                 tokenize_cp_loop line j (tok @ append_utf8 cp) out
               else if cp = 0x2B \<and> tok \<noteq> [] \<and> has_next \<and> is_alnum next then
                 tokenize_cp_loop line j (tok @ append_utf8 cp) out
               else if cp = 0x2E \<and> (tok \<noteq> [] \<and> 0x30 \<le> last tok \<and> last tok \<le> 0x39)
                         \<and> (has_next \<and> is_ascii_digit next) then
                 tokenize_cp_loop line j (tok @ append_utf8 cp) out
               else if is_apostrophe cp \<and> tok \<noteq> [] \<and> has_next \<and> is_letter next then
                 tokenize_cp_loop line j (tok @ append_utf8 cp) out
               else tokenize_cp_loop line j [] (flush_tok tok out)))
     else flush_tok tok out)"
  by pat_completeness auto
termination
proof -
  have adv: "i < j" if "decode_utf8_next line i = Some (cp, j)" for line i cp j
    using that by (auto simp: decode_utf8_next_def Let_def split: if_splits)
  show ?thesis
    by (relation "measure (\<lambda>(line, i, tok, out). length line - i)") (auto dest!: adv)
qed

definition tokenize_line_cp :: "byte list \<Rightarrow> byte list list" where
  "tokenize_line_cp line = tokenize_cp_loop line 0 [] []"

section \<open>Byte-level tokenizer (bool_index)\<close>

definition is_ascii_alpha :: "byte \<Rightarrow> bool" where
  "is_ascii_alpha c \<longleftrightarrow> (0x41 \<le> c \<and> c \<le> 0x5A) \<or> (0x61 \<le> c \<and> c \<le> 0x7A)"

definition is_ascii_digit8 :: "byte \<Rightarrow> bool" where
  "is_ascii_digit8 c \<longleftrightarrow> 0x30 \<le> c \<and> c \<le> 0x39"

definition is_cyr2_start :: "byte list \<Rightarrow> nat \<Rightarrow> bool" where
  "is_cyr2_start line i =
    (if i + 1 \<ge> length line then False
     else let b0 = line ! i; b1 = line ! (i + 1) in
       if \<not> (b0 = 0xD0 \<or> b0 = 0xD1) then False
       else 0x80 \<le> b1 \<and> b1 \<le> 0xBF)"

definition is_ascii_alnum :: "byte \<Rightarrow> bool" where
  "is_ascii_alnum c \<longleftrightarrow> is_ascii_alpha c \<or> is_ascii_digit8 c"

definition is_tok_start :: "byte list \<Rightarrow> nat \<Rightarrow> bool" where
  "is_tok_start line i =
    (if i \<ge> length line then False
     else is_ascii_alnum (line ! i) \<or> is_cyr2_start line i)"

definition flush :: "byte list \<Rightarrow> byte list list \<Rightarrow> byte list list" where
  "flush cur out = (if cur \<noteq> [] then out @ [lowercase_inplace cur] else out)"

function tokenize_loop ::
  "byte list \<Rightarrow> nat \<Rightarrow> byte list \<Rightarrow> byte list list \<Rightarrow> byte list list" where
  "tokenize_loop line i cur out =
    (if i < length line then
       (let c = line ! i in
        if is_ascii_alnum c then tokenize_loop line (i + 1) (cur @ [c]) out
        else if is_cyr2_start line i then
          tokenize_loop line (i + 2) (cur @ [line ! i, line ! (i + 1)]) out
        else if cur \<noteq> [] \<and> (c = 0x2D \<or> c = 0x2B \<or> c = 0x27) \<and> is_tok_start line (i + 1) then
          tokenize_loop line (i + 1) (cur @ [c]) out
        else if cur \<noteq> [] \<and> c = 0x2E \<and> is_ascii_digit8 (last cur) \<and> i + 1 < length line
                  \<and> is_ascii_digit8 (line ! (i + 1)) then
          tokenize_loop line (i + 1) (cur @ [0x2E]) out
        else tokenize_loop line (i + 1) [] (flush cur out))
     else flush cur out)"
  by pat_completeness auto
termination
  by (relation "measure (\<lambda>(line, i, cur, out). length line - i)")
     (auto simp: is_cyr2_start_def split: if_splits)

definition tokenize_line :: "byte list \<Rightarrow> byte list list" where
  "tokenize_line line = tokenize_loop line 0 [] []"

text \<open>
  The lines on which the two tokenizers are compared: sequences of ASCII bytes and of
  two-byte encodings of the Cyrillic letters \<open>U+0410..U+044F\<close>, \<open>U+0401\<close>, \<open>U+0451\<close>.
\<close>

definition cyr_letter_pair :: "byte \<Rightarrow> byte \<Rightarrow> bool" where
  "cyr_letter_pair b0 b1 \<longleftrightarrow>
    (b0 = 0xD0 \<and> ((0x90 \<le> b1 \<and> b1 \<le> 0xBF) \<or> b1 = 0x81)) \<or>
    (b0 = 0xD1 \<and> ((0x80 \<le> b1 \<and> b1 \<le> 0x8F) \<or> b1 = 0x91))"

fun ascii_cyr_line :: "byte list \<Rightarrow> bool" where
  "ascii_cyr_line [] = True"
| "ascii_cyr_line [b] = (b < 0x80)"
| "ascii_cyr_line (b0 # b1 # rest) =
    (if b0 < 0x80 then ascii_cyr_line (b1 # rest)
     else cyr_letter_pair b0 b1 \<and> ascii_cyr_line rest)"

text \<open>An apostrophe directly followed by an ASCII digit occurs in the line.\<close>

fun apostrophe_digit :: "byte list \<Rightarrow> bool" where
  "apostrophe_digit (b0 # b1 # rest) =
    ((b0 = 0x27 \<and> is_ascii_digit8 b1) \<or> apostrophe_digit (b1 # rest))"
| "apostrophe_digit _ = False"

section \<open>Term table and seen set (bool_index)\<close>

text \<open>
  A \<^verbatim>\<open>TermEntry*\<close> is the index of the entry in \<open>heap\<close>, the entries in the order of their
  allocation; a bucket is the list of the entries of its chain, the head first. The
  \<^verbatim>\<open>PostingList\<close> of an entry is the list of its \<open>n\<close> elements. Allocation does not fail
  in the model.
\<close>

record TermEntry =
  te_term :: "byte list"
  te_df :: u32
  te_postings :: "u32 list"

record TermTable =
  heap :: "TermEntry list"
  buckets :: "nat list list"
  tt_size :: u32

definition fnv1a64 :: "byte list \<Rightarrow> u64" where
  "fnv1a64 s = foldl (\<lambda>h c. (h XOR ucast c) * 1099511628211) 1469598103934665603 s"

definition tt_init :: "nat \<Rightarrow> TermTable" where
  "tt_init nbuckets = \<lparr> heap = [], buckets = replicate nbuckets [], tt_size = 0 \<rparr>"

fun chain_find :: "TermEntry list \<Rightarrow> nat list \<Rightarrow> byte list \<Rightarrow> nat option" where
  "chain_find hp [] t = None"
| "chain_find hp (e # es) t = (if te_term (hp ! e) = t then Some e else chain_find hp es t)"

definition tt_get_or_add :: "TermTable \<Rightarrow> byte list \<Rightarrow> TermTable \<times> nat" where
  "tt_get_or_add tt t =
    (let h = fnv1a64 t;
         bi = unat h mod length (buckets tt)
     in case chain_find (heap tt) (buckets tt ! bi) t of
          Some e \<Rightarrow> (tt, e)
        | None \<Rightarrow>
           (let ne = length (heap tt)
            in (tt\<lparr> heap := heap tt @ [\<lparr> te_term = t, te_df = 0, te_postings = [] \<rparr>],
                    buckets := (buckets tt)[bi := ne # (buckets tt ! bi)],
                    tt_size := tt_size tt + 1 \<rparr>, ne)))"

text \<open>
  The seen set is its array of slots, \<open>None\<close> for a null pointer. \<^verbatim>\<open>ptr_hash\<close> hashes the
  address of the entry: \<open>addr e\<close> is the address \<^verbatim>\<open>calloc\<close> gave to the entry \<open>e\<close>.
\<close>

definition ptr_hash :: "u64 \<Rightarrow> u64" where
  "ptr_hash p =
    (let x1 = p XOR drop_bit 33 p;
         x2 = x1 * 0xff51afd7ed558ccd;
         x3 = x2 XOR drop_bit 33 x2;
         x4 = x3 * 0xc4ceb9fe1a85ec53
     in x4 XOR drop_bit 33 x4)"

definition seen_init :: "nat \<Rightarrow> nat option list" where
  "seen_init cap_pow2 = replicate cap_pow2 None"

definition seen_reset :: "nat option list \<Rightarrow> nat option list" where
  "seen_reset ss = replicate (length ss) None"

text \<open>The loop of \<^verbatim>\<open>seen_insert\<close>, with the number of steps left.\<close>

fun seen_probe :: "nat option list \<Rightarrow> u32 \<Rightarrow> nat \<Rightarrow> u32 \<Rightarrow> nat \<Rightarrow> nat option list \<times> bool" where
  "seen_probe ss msk e i 0 = (ss, False)"
| "seen_probe ss msk e i (Suc steps) =
    (case ss ! unat i of
       None \<Rightarrow> (ss[unat i := Some e], True)
     | Some cur \<Rightarrow>
        if cur = e then (ss, False)
        else seen_probe ss msk e ((i + 1) AND msk) steps)"

definition seen_insert :: "(nat \<Rightarrow> u64) \<Rightarrow> nat option list \<Rightarrow> nat \<Rightarrow> nat option list \<times> bool" where
  "seen_insert addr ss e =
    (let h = ptr_hash (addr e);
         msk = of_nat (length ss) - 1;
         i = ucast h AND msk
     in seen_probe ss msk e i (length ss))"

section \<open>Index builder (bool_index)\<close>

text \<open>
  A file of the corpus is its generic path and its lines, \<open>None\<close> when it cannot be
  opened. \<^verbatim>\<open>std::filesystem::path::extension\<close> is what \<open>path_stem\<close> leaves of the file name.
\<close>

record CorpusFile =
  path :: string
  content :: "byte list list option"

definition path_extension :: "string \<Rightarrow> string" where
  "path_extension p = drop (length (path_stem p)) (path_filename p)"

text \<open>
  \<^verbatim>\<open>collect_text_files\<close> keeps the regular files it is given, the directory listing, when
  their extension is \<^verbatim>\<open>.txt\<close> and their path contains \<^verbatim>\<open>/text/\<close>. The listing is taken in
  the order of \<^verbatim>\<open>std::sort\<close> on paths.
\<close>

definition collect_text_files :: "CorpusFile list \<Rightarrow> CorpusFile list" where
  "collect_text_files listing =
    filter (\<lambda>f. path_extension (path f) = ''.txt'' \<and> contains (path f) ''/text/'') listing"

definition parse_header_line :: "byte list \<times> byte list \<Rightarrow> byte list \<Rightarrow> byte list \<times> byte list" where
  "parse_header_line tu line =
    (if starts_with line (bytes_of ''Title:'') then
       (let t = drop 6 line in (if t \<noteq> [] \<and> hd t = 0x20 then tl t else t, snd tu))
     else if starts_with line (bytes_of ''URL:'') then
       (let u = drop 4 line in (fst tu, if u \<noteq> [] \<and> hd u = 0x20 then tl u else u))
     else tu)"

definition parse_header :: "byte list list \<Rightarrow> byte list \<times> byte list" where
  "parse_header lines = foldl parse_header_line ([], []) (take 6 lines)"

text \<open>One token of a document: the body of the loop over \<open>tokens\<close>.\<close>

definition index_token ::
  "(nat \<Rightarrow> u64) \<Rightarrow> u32 \<Rightarrow> TermTable \<times> nat option list \<Rightarrow> byte list
    \<Rightarrow> TermTable \<times> nat option list" where
  "index_token addr did st tok =
    (if tok = [] then st
     else case tt_get_or_add (fst st) tok of (tt, e) \<Rightarrow>
       (case seen_insert addr (snd st) e of (ss, fresh) \<Rightarrow>
         if fresh then
           (tt\<lparr> heap := (heap tt)[e := (heap tt ! e)
                    \<lparr> te_df := te_df (heap tt ! e) + 1,
                      te_postings := te_postings (heap tt ! e) @ [did] \<rparr>] \<rparr>, ss)
         else (tt, ss)))"

definition index_line ::
  "(nat \<Rightarrow> u64) \<Rightarrow> u32 \<Rightarrow> TermTable \<times> nat option list \<Rightarrow> byte list
    \<Rightarrow> TermTable \<times> nat option list" where
  "index_line addr did st line = foldl (index_token addr did) st (tokenize_line line)"

record DocLine =
  dl_docid :: u32
  dl_lang :: string
  dl_title :: "byte list"
  dl_url :: "byte list"
  dl_path :: string

text \<open>One file of the corpus: the body of the loop over \<open>files\<close>.\<close>

definition index_file ::
  "(nat \<Rightarrow> u64) \<Rightarrow> (TermTable \<times> nat option list) \<times> DocLine list \<Rightarrow> CorpusFile
    \<Rightarrow> (TermTable \<times> nat option list) \<times> DocLine list" where
  "index_file addr st f =
    (case content f of
       None \<Rightarrow> st
     | Some lines \<Rightarrow>
        (let tu = parse_header lines;
             did = doc_docid (path f);
             d = \<lparr> dl_docid = did, dl_lang = lang_of_path (path f), dl_title = fst tu,
                   dl_url = snd tu, dl_path = path f \<rparr>;
             seen = seen_reset (snd (fst st))
         in (foldl (index_line addr did) (fst (fst st), seen) (drop 6 lines), snd st @ [d])))"

text \<open>
  The files written. \<^verbatim>\<open>terms.tsv\<close> and \<^verbatim>\<open>docs.tsv\<close> are the lists of their lines, a line
  being the values it prints in decimal.
\<close>

record TermLine =
  tl_term :: "byte list"
  tl_df :: u32
  tl_post_off :: u64
  tl_post_len :: u64

record IndexFiles =
  docs_tsv :: "DocLine list"
  terms_tsv :: "TermLine list"
  postings_bin :: "byte list"

text \<open>
  The loop that compacts a sorted array to its unique elements: \<open>kept\<close> is \<open>a[0..w)\<close>.
\<close>

fun unique_loop :: "u32 list \<Rightarrow> u32 list \<Rightarrow> u32 list" where
  "unique_loop kept [] = kept"
| "unique_loop kept (x # xs) =
    (if kept = [] \<or> x \<noteq> last kept then unique_loop (kept @ [x]) xs
     else unique_loop kept xs)"

text \<open>
  One entry of the sorted array: the body of the writing loop. The state is the offset and
  the two files written so far.
\<close>

definition write_entry ::
  "u64 \<times> TermLine list \<times> byte list \<Rightarrow> TermEntry \<Rightarrow> u64 \<times> TermLine list \<times> byte list" where
  "write_entry st e =
    (case st of (offset, terms, post) \<Rightarrow>
      (let a = unique_loop [] (sort (te_postings e));
           w = (of_nat (length a) :: u32);
           bytes_len = (ucast w * 4 :: u64)
       in (offset + bytes_len,
           terms @ [\<lparr> tl_term = te_term e, tl_df = w, tl_post_off = offset,
                       tl_post_len = bytes_len \<rparr>],
           post @ take (unat bytes_len) (concat (map u32_bytes a)))))"

definition write_index :: "TermEntry list \<Rightarrow> u64 \<times> TermLine list \<times> byte list" where
  "write_index arr = foldl write_entry (0, [], []) arr"

text \<open>
  The table after the loop over the files, and the whole of \<^verbatim>\<open>build_index\<close>. The numbers
  of buckets and of slots are parameters of \<^verbatim>\<open>tt_init\<close> and \<^verbatim>\<open>seen_init\<close>;
  \<^verbatim>\<open>build_index\<close> passes \<open>2^20\<close> and \<open>2^15\<close>. \<^verbatim>\<open>qsort\<close> with \<^verbatim>\<open>strcmp\<close> orders the entries by
  their terms as lists of bytes (a term holds no NUL).
\<close>

definition build_table ::
  "nat \<Rightarrow> nat \<Rightarrow> (nat \<Rightarrow> u64) \<Rightarrow> CorpusFile list \<Rightarrow> TermTable \<times> DocLine list" where
  "build_table nbuckets cap addr files =
    (let st = foldl (index_file addr) ((tt_init nbuckets, seen_init cap), []) files
     in (fst (fst st), snd st))"

text \<open>The files the build reads: those collected, cut at \<open>limit\<close> when it is not 0.\<close>

definition build_files :: "CorpusFile list \<Rightarrow> nat \<Rightarrow> CorpusFile list" where
  "build_files listing limit =
    (let files = collect_text_files listing
     in if limit \<noteq> 0 \<and> limit < length files then take limit files else files)"

text \<open>The array \<open>arr\<close> of the entries of a table, bucket after bucket, and \<open>arr\<close> sorted.\<close>

definition table_entries :: "TermTable \<Rightarrow> nat list" where
  "table_entries tt = concat (buckets tt)"

definition sorted_entries :: "TermTable \<Rightarrow> TermEntry list" where
  "sorted_entries tt = map (\<lambda>e. heap tt ! e) (sort_key (\<lambda>e. te_term (heap tt ! e)) (table_entries tt))"

definition build_index_with ::
  "nat \<Rightarrow> nat \<Rightarrow> (nat \<Rightarrow> u64) \<Rightarrow> CorpusFile list \<Rightarrow> nat \<Rightarrow> error + IndexFiles" where
  "build_index_with nbuckets cap addr listing limit =
    (if collect_text_files listing = [] then Inl (Die ''no .txt files found'')
     else
       (let td = build_table nbuckets cap addr (build_files listing limit);
            tt = fst td
        in if of_nat (length (table_entries tt)) \<noteq> tt_size tt
           then Inl (Die ''internal: term count mismatch'')
           else
             (let out = write_index (sorted_entries tt)
              in Inr \<lparr> docs_tsv = snd td, terms_tsv = fst (snd out),
                       postings_bin = snd (snd out) \<rparr>)))"

definition build_index :: "(nat \<Rightarrow> u64) \<Rightarrow> CorpusFile list \<Rightarrow> nat \<Rightarrow> error + IndexFiles" where
  "build_index = build_index_with (2 ^ 20) (2 ^ 15)"

section \<open>The lookup command (bool_index)\<close>

text \<open>
  What \<^verbatim>\<open>lookup_term\<close> prints: \<^verbatim>\<open>NOT FOUND\<close>, or the term, its \<open>df\<close> and the first 30
  elements of the vector of \<open>df\<close> zeroes into which \<open>bytes_len\<close> bytes were read.
\<close>

datatype lookup_result = NotFound | Found "byte list" u32 "u32 list"

fun lookup_scan :: "byte list list \<Rightarrow> byte list \<Rightarrow> error + (u32 \<times> u64 \<times> u64) option" where
  "lookup_scan [] t = Inr None"
| "lookup_scan (line # lines) t =
    (case find_from 0x09 line 0 of
       None \<Rightarrow> lookup_scan lines t
     | Some p1 \<Rightarrow>
        if substr line 0 p1 \<noteq> t then lookup_scan lines t
        else case find_from 0x09 line (p1 + 1) of
          None \<Rightarrow> Inl (Die ''bad terms.tsv format'')
        | Some p2 \<Rightarrow>
           (case find_from 0x09 line (p2 + 1) of
              None \<Rightarrow> Inl (Die ''bad terms.tsv format'')
            | Some p3 \<Rightarrow>
               Inr (Some (of_nat (strtoull (substr line (p1 + 1) (p2 - p1 - 1))),
                          of_nat (strtoull (substr line (p2 + 1) (p3 - p2 - 1))),
                          of_nat (strtoull (drop (p3 + 1) line))))))"

definition lookup_term ::
  "byte list list option \<Rightarrow> byte list option \<Rightarrow> byte list \<Rightarrow> error + lookup_result" where
  "lookup_term terms_file postings_file t =
    (case terms_file of
       None \<Rightarrow> Inl (Die ''cannot open terms.tsv'')
     | Some lines \<Rightarrow>
        (case lookup_scan lines t of
           Inl e \<Rightarrow> Inl e
         | Inr None \<Rightarrow> Inr NotFound
         | Inr (Some (d, offset, bytes_len)) \<Rightarrow>
            (case postings_file of
               None \<Rightarrow> Inl (Die ''cannot open postings.bin'')
             | Some bytes \<Rightarrow>
                Inr (Found t d
                  (take (min (unat d) 30) (read_u32s bytes (unat offset) (unat bytes_len) (unat d)))))))"

text \<open>The \<^verbatim>\<open>lookup\<close> branch of \<^verbatim>\<open>main\<close>, once \<^verbatim>\<open>--index\<close> and \<^verbatim>\<open>--term\<close> are read.\<close>

definition main_lookup ::
  "byte list list option \<Rightarrow> byte list option \<Rightarrow> byte list \<Rightarrow> error + lookup_result" where
  "main_lookup terms_file postings_file t =
    (if t = [] then Inl Usage
     else lookup_term terms_file postings_file (lowercase_inplace t))"

text \<open>
  \<open>spelling_of s t\<close>: the term \<open>t\<close> is in lower case, and \<open>s\<close> spells it with some of its
  letters in upper case. A term is a sequence of ASCII bytes and of two-byte sequences led by
  \<open>0xD0\<close> or \<open>0xD1\<close>, as the byte-level tokenizer builds them; the letters with two cases are
  those of the fold, ASCII \<open>a..z\<close> and Cyrillic \<open>U+0430..U+044F\<close>, \<open>U+0451\<close>.
\<close>

definition cyr_upper_of :: "byte \<times> byte \<Rightarrow> (byte \<times> byte) option" where
  "cyr_upper_of p =
    (case p of (b0, b1) \<Rightarrow>
      if b0 = 0xD0 \<and> 0xB0 \<le> b1 \<and> b1 \<le> 0xBF then Some (0xD0, b1 - 0x20)
      else if b0 = 0xD1 \<and> 0x80 \<le> b1 \<and> b1 \<le> 0x8F then Some (0xD0, b1 + 0x20)
      else if b0 = 0xD1 \<and> b1 = 0x91 then Some (0xD0, 0x81)
      else None)"

definition lower_pair :: "byte \<Rightarrow> byte \<Rightarrow> bool" where
  "lower_pair b0 b1 \<longleftrightarrow>
    (b0 = 0xD0 \<or> b0 = 0xD1) \<and> 0x80 \<le> b1 \<and> b1 \<le> 0xBF \<and>
    \<not> (b0 = 0xD0 \<and> ((0x90 \<le> b1 \<and> b1 \<le> 0xAF) \<or> b1 = 0x81))"

fun spelling_of :: "byte list \<Rightarrow> byte list \<Rightarrow> bool" where
  "spelling_of [] [] = True"
| "spelling_of (a # s) (b # t) =
    (if b < 0x80 then
       \<not> (0x41 \<le> b \<and> b \<le> 0x5A) \<and> (a = b \<or> (0x61 \<le> b \<and> b \<le> 0x7A \<and> a = b - 32))
       \<and> spelling_of s t
     else
       (case s of [] \<Rightarrow> False | a1 # s' \<Rightarrow>
         (case t of [] \<Rightarrow> False | b1 # t' \<Rightarrow>
            lower_pair b b1 \<and> ((a, a1) = (b, b1) \<or> cyr_upper_of (b, b1) = Some (a, a1))
            \<and> spelling_of s' t')))"
| "spelling_of _ _ = False"

text \<open>
  A dictionary of one line, for the term made of the letter \<open>U+0456\<close> (bytes \<open>D1 96\<close>), whose
  capital \<open>U+0406\<close> (bytes \<open>D0 86\<close>) is outside the ranges of the fold.
\<close>

definition unfolded_terms_tsv :: "byte list list" where
  "unfolded_terms_tsv = [[0xD1, 0x96] @ 0x09 # tsv_line [''1'', ''0'', ''4'']]"

section \<open>Auxiliary notions for the comparison of the tokenizers\<close>

text \<open>
  What \<^verbatim>\<open>lowercase_inplace\<close> makes of a two-byte sequence, and the codepoint that
  \<^verbatim>\<open>decode_utf8_next\<close> reads from it.
\<close>

definition fold_pair :: "byte \<Rightarrow> byte \<Rightarrow> byte list" where
  "fold_pair b0 b1 =
    (if b0 = 0xD0 then
       (if 0x90 \<le> b1 \<and> b1 \<le> 0x9F then [b0, b1 + 0x20]
        else if 0xA0 \<le> b1 \<and> b1 \<le> 0xAF then [0xD1, b1 - 0x20]
        else if b1 = 0x81 then [0xD1, 0x91]
        else [b0, b1])
     else [b0, b1])"

definition pair_cp :: "byte \<Rightarrow> byte \<Rightarrow> u32" where
  "pair_cp b0 b1 = push_bit 6 (ucast (b0 AND 0x1F)) OR ucast (b1 AND 0x3F)"

definition pair_ok :: "byte \<Rightarrow> byte \<Rightarrow> bool" where
  "pair_ok b0 b1 \<longleftrightarrow>
    is_letter (pair_cp b0 b1) \<and> \<not> is_ascii_digit (pair_cp b0 b1)
    \<and> append_utf8 (to_lower_cp (pair_cp b0 b1)) = fold_pair b0 b1
    \<and> b1 AND 0xC0 = 0x80"

text \<open>
  The pending tokens of the two loops at the same index: the byte-level one, \<open>cur\<close>, is
  not yet in lower case.
\<close>

definition tok_rel :: "byte list \<Rightarrow> byte list \<Rightarrow> bool" where
  "tok_rel tok cur \<longleftrightarrow>
    ascii_cyr_line cur \<and> tok = lowercase_inplace cur \<and> (tok = [] \<longleftrightarrow> cur = []) \<and>
    ((tok \<noteq> [] \<and> 0x30 \<le> last tok \<and> last tok \<le> 0x39)
      \<longleftrightarrow> (cur \<noteq> [] \<and> is_ascii_digit8 (last cur)))"


definition sample_terms_tsv :: "byte list list" where
  "sample_terms_tsv =
    [tsv_line [''alpha'', ''1'', ''0'', ''4''], tsv_line [''beta'', ''2'', ''4'', ''8'']]"

definition sample_postings_bin :: "byte list" where
  "sample_postings_bin = [1, 0, 0, 0, 1, 0, 0, 0, 0x32, 0x75, 0, 0]"

definition sample_index :: Index where
  "sample_index =
    \<lparr> term_pool = bytes_of ''alphabeta'',
      dict = [\<lparr> term_off = 0, term_len = 5, df = 1, post_off = 0, post_len = 4 \<rparr>,
              \<lparr> term_off = 5, term_len = 4, df = 2, post_off = 4, post_len = 8 \<rparr>],
      postings = sample_postings_bin,
      docs_sorted =
        [\<lparr> docid = 1, lang = bytes_of ''en'', title = bytes_of ''A'', url = bytes_of ''u1'' \<rparr>,
         \<lparr> docid = 30002, lang = bytes_of ''ru'', title = bytes_of ''B'', url = bytes_of ''u2'' \<rparr>],
      universe = [1, 30002] \<rparr>"

text \<open>Blocks that \<^verbatim>\<open>malloc\<close> returns filled with the byte \<open>0xAA\<close>.\<close>

definition sample_junk :: "nat \<Rightarrow> nat \<Rightarrow> byte" where
  "sample_junk k i = 0xAA"

text \<open>
  What the writing loop makes of the posting list of an entry, and what the builder
  promises of a line of \<^verbatim>\<open>terms.tsv\<close> with respect to the content of \<^verbatim>\<open>postings.bin\<close>.
\<close>

definition final_postings :: "TermEntry \<Rightarrow> u32 list" where
  "final_postings e = unique_loop [] (sort (te_postings e))"

definition term_line_ok :: "byte list \<Rightarrow> TermLine \<Rightarrow> bool" where
  "term_line_ok post l \<longleftrightarrow>
     unat (tl_post_len l) = unat (tl_df l) * 4 \<and>
     unat (tl_post_off l) + unat (tl_post_len l) \<le> length post \<and>
     sorted_wrt (<)
       (read_u32s post (unat (tl_post_off l)) (unat (tl_post_len l)) (unat (tl_df l))) \<and>
     length (read_u32s post (unat (tl_post_off l)) (unat (tl_post_len l)) (unat (tl_df l)))
       = unat (tl_df l)"

text \<open>
  A small corpus: an English file with the body \<open>Alpha, beta!\<close>, a Russian file with the
  body \<open>beta\<close> and the Cyrillic word \<open>Gamma\<close> with a capital, and a file that is not indexed;
  a table of 4 buckets, a seen set of 4 slots, entries allocated 64 bytes apart.
\<close>

definition sample_header :: "byte list list" where
  "sample_header = [bytes_of ''Title: A'', bytes_of ''URL: u1'', [], [], [], []]"

definition sample_listing :: "CorpusFile list" where
  "sample_listing =
    [\<lparr> path = ''/c/enwiki/text/1.txt'',
       content = Some (sample_header @ [bytes_of ''Alpha, beta!'']) \<rparr>,
     \<lparr> path = ''/c/ruwiki/text/2.txt'',
       content = Some (sample_header @
         [bytes_of ''beta '' @ [0xD0, 0x93, 0xD0, 0xB0, 0xD0, 0xBC, 0xD0, 0xBC, 0xD0, 0xB0]]) \<rparr>,
     \<lparr> path = ''/c/ruwiki/text/readme.md'', content = None \<rparr>]"

definition sample_addr :: "nat \<Rightarrow> u64" where
  "sample_addr k = of_nat (4096 + 64 * k)"

definition sample_table :: TermTable where
  "sample_table =
    \<lparr> heap =
        [\<lparr> te_term = bytes_of ''alpha'', te_df = 1, te_postings = [1] \<rparr>,
         \<lparr> te_term = bytes_of ''beta'', te_df = 2, te_postings = [1, 30002] \<rparr>,
         \<lparr> te_term = [0xD0, 0xB3, 0xD0, 0xB0, 0xD0, 0xBC, 0xD0, 0xBC, 0xD0, 0xB0], te_df = 1,
            te_postings = [30002] \<rparr>],
      buckets = [[], [1, 0], [2], []],
      tt_size = 3 \<rparr>"

definition sample_docs :: "DocLine list" where
  "sample_docs =
    [\<lparr> dl_docid = 1, dl_lang = ''en'', dl_title = bytes_of ''A'', dl_url = bytes_of ''u1'',
        dl_path = ''/c/enwiki/text/1.txt'' \<rparr>,
     \<lparr> dl_docid = 30002, dl_lang = ''ru'', dl_title = bytes_of ''A'', dl_url = bytes_of ''u1'',
        dl_path = ''/c/ruwiki/text/2.txt'' \<rparr>]"

definition sample_files :: IndexFiles where
  "sample_files =
    \<lparr> docs_tsv = sample_docs,
      terms_tsv =
        [\<lparr> tl_term = bytes_of ''alpha'', tl_df = 1, tl_post_off = 0, tl_post_len = 4 \<rparr>,
         \<lparr> tl_term = bytes_of ''beta'', tl_df = 2, tl_post_off = 4, tl_post_len = 8 \<rparr>,
         \<lparr> tl_term = [0xD0, 0xB3, 0xD0, 0xB0, 0xD0, 0xBC, 0xD0, 0xBC, 0xD0, 0xB0], tl_df = 1,
            tl_post_off = 12, tl_post_len = 4 \<rparr>],
      postings_bin = [1, 0, 0, 0, 1, 0, 0, 0, 0x32, 0x75, 0, 0, 0x32, 0x75, 0, 0] \<rparr>"

section \<open>Auxiliary notions for the seen set\<close>

text \<open>
  The tokens of a document, in the order the loop over its lines meets them; how many times
  an identifier stands in the posting lists of a table; how many slots of a seen set are
  taken.
\<close>

definition doc_tokens :: "byte list list \<Rightarrow> byte list list" where
  "doc_tokens lines = concat (map tokenize_line (drop 6 lines))"

definition pushes :: "u32 \<Rightarrow> TermTable \<Rightarrow> nat" where
  "pushes did tt = sum_list (map (\<lambda>e. count_list (te_postings e) did) (heap tt))"

definition filled :: "nat option list \<Rightarrow> nat" where
  "filled ss = length (filter (\<lambda>x. x \<noteq> None) ss)"

text \<open>
  A corpus of two files, the second with the body \<open>a b c\<close>, and the table a build with a
  seen set of 2 slots leaves: the entry of \<open>c\<close> has no posting.
\<close>

definition overflow_file :: CorpusFile where
  "overflow_file =
    \<lparr> path = ''/c/enwiki/text/7.txt'', content = Some (sample_header @ [bytes_of ''a b c'']) \<rparr>"

definition overflow_listing :: "CorpusFile list" where
  "overflow_listing =
    [\<lparr> path = ''/c/enwiki/text/1.txt'',
       content = Some (sample_header @ [bytes_of ''Alpha, beta!'']) \<rparr>,
     overflow_file]"

definition overflow_table :: TermTable where
  "overflow_table =
    \<lparr> heap =
        [\<lparr> te_term = bytes_of ''alpha'', te_df = 1, te_postings = [1] \<rparr>,
         \<lparr> te_term = bytes_of ''beta'', te_df = 1, te_postings = [1] \<rparr>,
         \<lparr> te_term = bytes_of ''a'', te_df = 1, te_postings = [7] \<rparr>,
         \<lparr> te_term = bytes_of ''b'', te_df = 1, te_postings = [7] \<rparr>,
         \<lparr> te_term = bytes_of ''c'', te_df = 0, te_postings = [] \<rparr>],
      buckets = [[4], [1, 0], [2], [3]],
      tt_size = 5 \<rparr>"

section \<open>Properties\<close>

subsection \<open>The codec\<close>

lemma cp_upper_bits:
  assumes "\<And>n. bit (w::u32) n \<Longrightarrow> n < 21"
  shows "w \<le> 0x1FFFFF"
proof -
  have "take_bit 21 w = w"
    by (rule bit_word_eqI) (auto simp: bit_simps dest: assms)
  then have "w AND mask 21 = w" by (simp add: take_bit_eq_mask)
  then have "w < 2 ^ 21" using and_mask_less'[of 21 w] by simp
  then show ?thesis
    by (simp add: word_less_nat_alt word_le_nat_alt)
qed

lemma byte_masks:
  "(0x07::byte) = mask 3" "(0x3F::byte) = mask 6" "(0x0F::byte) = mask 4" "(0x1F::byte) = mask 5"
  by (simp_all add: mask_eq_exp_minus_1)

lemma cp4_le:
  "push_bit 18 (ucast ((c0::byte) AND 0x07)) OR push_bit 12 (ucast ((c1::byte) AND 0x3F))
      OR push_bit 6 (ucast ((c2::byte) AND 0x3F)) OR ucast ((c3::byte) AND 0x3F)
    \<le> (0x1FFFFF :: u32)"
  unfolding byte_masks by (rule cp_upper_bits) (auto simp: bit_simps)

lemma cp3_le:
  "push_bit 12 (ucast ((c0::byte) AND 0x0F)) OR push_bit 6 (ucast ((c1::byte) AND 0x3F))
      OR ucast ((c2::byte) AND 0x3F) \<le> (0x1FFFFF :: u32)"
  unfolding byte_masks by (rule cp_upper_bits) (auto simp: bit_simps)

lemma cp2_le:
  "push_bit 6 (ucast ((c0::byte) AND 0x1F)) OR ucast ((c1::byte) AND 0x3F) \<le> (0x1FFFFF :: u32)"
  unfolding byte_masks by (rule cp_upper_bits) (auto simp: bit_simps)

lemma cp1_le: "ucast (c0::byte) \<le> (0x1FFFFF :: u32)"
  by (rule cp_upper_bits) (auto simp: bit_simps dest: bit_imp_le_length)

lemma decode_utf8_next_some:
  assumes "i < length s"
  shows "\<exists>cp j. decode_utf8_next s i = Some (cp, j) \<and> cp \<le> 0x1FFFFF \<and> i < j \<and> j \<le> i + 4
            \<and> j \<le> length s"
  using assms
  by (auto simp: decode_utf8_next_def Let_def cp1_le cp2_le cp3_le cp4_le)

lemma and80_of_lt:
  assumes "(c::byte) < 0x80"
  shows "c AND 0x80 = 0"
proof -
  from assms have "c < 2 ^ 7" by simp
  then have e: "c AND mask 7 = c" by (rule less_mask_eq)
  have "c AND 0x80 = (c AND mask 7) AND 0x80" by (simp only: e)
  also have "\<dots> = c AND (mask 7 AND 0x80)" by (simp only: and.assoc)
  also have "(mask 7 AND 0x80 :: byte) = 0" by (simp add: mask_eq_exp_minus_1)
  finally show ?thesis by simp
qed

lemma lead_not_ascii:
  assumes l: "(c::byte) AND 0xE0 = 0xC0 \<or> c AND 0xF0 = 0xE0 \<or> c AND 0xF8 = 0xF0"
  shows "\<not> c < 0x80"
proof
  assume "c < 0x80"
  then have z: "c AND 0x80 = 0" by (rule and80_of_lt)
  have "(c AND 0xE0) AND 0x80 = c AND 0x80" "(c AND 0xF0) AND 0x80 = c AND 0x80"
       "(c AND 0xF8) AND 0x80 = c AND 0x80"
    by (simp_all add: and.assoc)
  with l z show False by auto
qed

lemma positions_2: "{Suc 0 ..< 2} = {Suc 0}" by auto
lemma positions_3: "{Suc 0 ..< 3} = {Suc 0, 2}" by auto
lemma positions_4: "{Suc 0 ..< 4} = {Suc 0, 2, 3}" by auto

lemma decode_utf8_next_malformed:
  assumes "i < length s" "malformed s i"
  shows "decode_utf8_next s i = Some (0xFFFD, i + 1)"
proof -
  let ?c = "s ! i"
  have l: "?c AND 0xE0 = 0xC0 \<or> ?c AND 0xF0 = 0xE0 \<or> ?c AND 0xF8 = 0xF0"
    using assms(2) by (auto simp: malformed_def seq_len_def split: if_splits)
  then have nb: "\<not> ?c < 0x80" by (rule lead_not_ascii)
  consider (two) "?c AND 0xE0 = 0xC0"
    | (three) "?c AND 0xE0 \<noteq> 0xC0" "?c AND 0xF0 = 0xE0"
    | (four) "?c AND 0xE0 \<noteq> 0xC0" "?c AND 0xF0 \<noteq> 0xE0" "?c AND 0xF8 = 0xF0"
    using l by blast
  then show ?thesis
  proof cases
    case two
    with assms nb show ?thesis
      by (auto simp: malformed_def seq_len_def decode_utf8_next_def Let_def positions_2)
  next
    case three
    with assms nb show ?thesis
      by (auto simp: malformed_def seq_len_def decode_utf8_next_def Let_def positions_3)
  next
    case four
    with assms nb show ?thesis
      by (auto simp: malformed_def seq_len_def decode_utf8_next_def Let_def positions_4)
  qed
qed

text \<open>
  Claim C5, as the code has it. For every byte string and every index below its size,
  \<^verbatim>\<open>decode_utf8_next\<close> returns a codepoint and consumes between one and four bytes, all
  inside the string; a malformed sequence (truncated, or with a bad continuation byte)
  gives \<open>U+FFFD\<close> and consumes exactly one byte. The codepoint is below \<open>2^21\<close>: the
  decoder has no range check, so it is not always at most \<open>0x10FFFF\<close>.
\<close>

theorem decode_utf8_next_wellformed:
  assumes "i < length s"
  shows "\<exists>cp j. decode_utf8_next s i = Some (cp, j) \<and> cp \<le> 0x1FFFFF
            \<and> i + 1 \<le> j \<and> j \<le> i + 4 \<and> j \<le> length s
            \<and> (malformed s i \<longrightarrow> cp = 0xFFFD \<and> j = i + 1)"
proof -
  from decode_utf8_next_some[OF assms] obtain cp j where
    d: "decode_utf8_next s i = Some (cp, j)" "cp \<le> 0x1FFFFF" "i < j" "j \<le> i + 4" "j \<le> length s"
    by blast
  have "malformed s i \<longrightarrow> cp = 0xFFFD \<and> j = i + 1"
    using decode_utf8_next_malformed[OF assms] d(1) by auto
  with d show ?thesis by auto
qed

theorem decode_utf8_next_wellformed_witness:
  "(0::nat) < length [0xE2, 0x82 :: byte] \<and> malformed [0xE2, 0x82] 0
    \<and> decode_utf8_next [0xE2, 0x82] 0 = Some (0xFFFD, 1)"
  using decode_utf8_next_wellformed[of 0 "[0xE2, 0x82]"]
  by (auto simp: malformed_def seq_len_def)

text \<open>
  The range stated by C5 fails: the four bytes \<open>F4 90 80 80\<close> decode to \<open>0x110000\<close>,
  which is above \<open>0x10FFFF\<close>.
\<close>

theorem decode_utf8_next_range_counterexample:
  "(0::nat) < length [0xF4, 0x90, 0x80, 0x80 :: byte]
    \<and> decode_utf8_next [0xF4, 0x90, 0x80, 0x80] 0 = Some (0x110000, 4)
    \<and> \<not> (0x110000 :: u32) \<le> 0x10FFFF"
  by (simp add: decode_utf8_next_def)

subsection \<open>The English stemmer\<close>

lemmas stem_en_defs =
  stem_en_def stem_en_plural_def stem_en_verb_def stem_en_tail_def stem_en_double_def
  stem_en_y_def ends_with_bytes_def cut_suffix_def has_vowel_en_def is_vowel_en_def
  ends_with_double_consonant_en_def is_consonant_en_def Let_def

lemma ends_with_suffix: "ends_with_bytes s suf \<longleftrightarrow> suffix suf s"
proof
  assume "ends_with_bytes s suf"
  then have "drop (length s - length suf) s = suf"
    by (simp add: ends_with_bytes_def Let_def split: if_splits)
  then have "s = take (length s - length suf) s @ suf"
    by (metis append_take_drop_id)
  then show "suffix suf s" by (rule suffixI)
next
  assume "suffix suf s"
  then obtain p where "s = p @ suf" by (auto simp: suffix_def)
  then show "ends_with_bytes s suf" by (simp add: ends_with_bytes_def)
qed

text \<open>
  Claim C6, as the code has it. On a token ending in \<open>eed\<close> the verb-suffix step drops
  the last character (leaving a token in \<open>ee\<close>) when the token has more than four
  characters, and leaves a token of three or four characters as it is.
\<close>

theorem stem_en_verb_eed:
  assumes "ends_with_bytes tok ''eed''"
  shows "(length tok > 4 \<longrightarrow>
            stem_en_verb tok = Inr (butlast tok) \<and> ends_with_bytes (butlast tok) ''ee'')
       \<and> (length tok \<le> 4 \<longrightarrow> stem_en_verb tok = Inr tok)"
proof -
  from assms obtain p where p: "tok = p @ ''eed''"
    by (auto simp: ends_with_suffix suffix_def)
  have "butlast tok = p @ ''ee''" by (simp add: p butlast_append)
  then have "ends_with_bytes (butlast tok) ''ee''" by (simp add: ends_with_suffix suffix_def)
  with assms show ?thesis
    by (simp add: stem_en_verb_def butlast_conv_take)
qed

theorem stem_en_verb_eed_witness:
  "ends_with_bytes ''agreed'' ''eed'' \<and> length ''agreed'' > 4
    \<and> stem_en_verb ''agreed'' = Inr ''agree''"
  using stem_en_verb_eed[of "''agreed''"] by (simp add: ends_with_bytes_def)

text \<open>
  C6 as stated fails on \<open>feed\<close>: it has length 4, ends in \<open>eed\<close>, reaches the verb-suffix
  step unchanged, and keeps its last character.
\<close>

theorem stem_en_verb_eed_counterexample:
  "3 \<le> length ''feed'' \<and> ends_with_bytes ''feed'' ''eed''
    \<and> stem_en_plural ''feed'' = Inr ''feed''
    \<and> stem_en_verb ''feed'' = Inr ''feed''
    \<and> stem_en_verb ''feed'' \<noteq> Inr (butlast ''feed'')
    \<and> stem_en ''feed'' = ''feed''"
  by (simp add: stem_en_defs)

lemma tail2_ends:
  "2 \<le> length u \<Longrightarrow> length x = 2 \<Longrightarrow> drop (length u - 2) u = x \<longleftrightarrow> ends_with_bytes u x"
  by (simp add: ends_with_bytes_def)

lemma ends_last:
  assumes "ends_with_bytes u suf" "suf \<noteq> []"
  shows "u \<noteq> [] \<and> last u = last suf"
proof -
  from assms(1) obtain p where "u = p @ suf" by (auto simp: ends_with_suffix suffix_def)
  with assms(2) show ?thesis by simp
qed

lemma ends_single: "ends_with_bytes u [c] \<longleftrightarrow> u \<noteq> [] \<and> last u = c"
proof
  assume "ends_with_bytes u [c]"
  from ends_last[OF this] show "u \<noteq> [] \<and> last u = c" by simp
next
  assume "u \<noteq> [] \<and> last u = c"
  then have "u = butlast u @ [c]" by (metis append_butlast_last_id)
  then have "suffix [c] u" by (rule suffixI)
  then show "ends_with_bytes u [c]" by (simp add: ends_with_suffix)
qed

lemma ends_longer:
  assumes "ends_with_bytes u (p @ suf)"
  shows "ends_with_bytes u suf"
proof -
  from assms obtain q where "u = q @ p @ suf" by (auto simp: ends_with_suffix suffix_def)
  then have "u = (q @ p) @ suf" by simp
  then have "suffix suf u" by (rule suffixI)
  then show ?thesis by (simp add: ends_with_suffix)
qed

lemma ends_cut:
  assumes "ends_with_bytes u (p @ suf)"
  shows "ends_with_bytes (take (length u - length suf) u) p"
proof -
  from assms obtain q where u: "u = q @ p @ suf" by (auto simp: ends_with_suffix suffix_def)
  then have "take (length u - length suf) u = q @ p" by simp
  then have "suffix p (take (length u - length suf) u)" by (simp add: suffix_def)
  then show ?thesis by (simp add: ends_with_suffix)
qed

lemma ends_len: "ends_with_bytes u suf \<Longrightarrow> length suf \<le> length u"
  by (simp add: ends_with_bytes_def Let_def split: if_splits)

text \<open>The steps, by the tests of the token.\<close>

lemma plural_cut2:
  assumes "ends_with_bytes t ''sses'' \<or> ends_with_bytes t ''ies''"
  shows "stem_en_plural t = Inr (take (length t - 2) t)"
proof -
  from assms have "3 \<le> length t" using ends_len[of t "''sses''"] ends_len[of t "''ies''"] by auto
  with assms show ?thesis by (auto simp: stem_en_plural_def cut_suffix_def Let_def)
qed

lemma plural_cut_s:
  assumes "cuts_s t"
  shows "stem_en_plural t = Inr (butlast t)"
  using assms by (simp add: cuts_s_def stem_en_plural_def cut_suffix_def Let_def butlast_conv_take)

lemma plural_none:
  assumes "\<not> ends_with_bytes t ''sses''" "\<not> ends_with_bytes t ''ies''" "\<not> cuts_s t"
  shows "stem_en_plural t = Inr t \<or> (stem_en_plural t = Inl t \<and> ends_with_bytes t ''s'' \<and> \<not> ends_with_bytes t ''ss'')"
  using assms by (auto simp: cuts_s_def stem_en_plural_def cut_suffix_def Let_def butlast_conv_take)

lemma verb_cut_eed:
  assumes "cuts_eed x"
  shows "stem_en_verb x = Inr (butlast x)"
  using assms by (simp add: cuts_eed_def stem_en_verb_def butlast_conv_take)

lemma verb_cut_ed:
  assumes "cuts_ed x"
  shows "stem_en_verb x = Inr (cut_suffix x 2)"
  using assms by (simp add: cuts_ed_def stem_en_verb_def Let_def)

lemma ing_not_ed: "ends_with_bytes x ''ing'' \<Longrightarrow> \<not> ends_with_bytes x ''ed''"
  using ends_last[of x "''ing''"] ends_last[of x "''ed''"] by auto

lemma eed_ed: "ends_with_bytes x ''eed'' \<Longrightarrow> ends_with_bytes x ''ed''"
  using ends_longer[of x "''e''" "''ed''"] by simp

lemma verb_cut_ing:
  assumes "cuts_ing x"
  shows "stem_en_verb x = Inr (cut_suffix x 3)"
proof -
  from assms have i: "ends_with_bytes x ''ing''" by (simp add: cuts_ing_def)
  then have "\<not> ends_with_bytes x ''ed''" by (rule ing_not_ed)
  moreover then have "\<not> ends_with_bytes x ''eed''" using eed_ed by blast
  ultimately show ?thesis using assms by (simp add: cuts_ing_def stem_en_verb_def Let_def)
qed

lemma verb_none:
  assumes "\<not> cuts_eed x" "\<not> cuts_ed x" "\<not> cuts_ing x"
  shows "stem_en_verb x = Inr x
    \<or> (stem_en_verb x = Inl x \<and> (ends_with_bytes x ''ed'' \<or> ends_with_bytes x ''ing''))"
  using assms by (auto simp: cuts_eed_def cuts_ed_def cuts_ing_def stem_en_verb_def Let_def)

lemma tail_adds:
  "stem_en_tail z = (if adds_e z then z @ ''e'' else z)"
proof (cases "2 \<le> length z")
  case True
  then show ?thesis by (auto simp: stem_en_tail_def adds_e_def Let_def tail2_ends)
next
  case False
  then have "\<not> ends_with_bytes z ''at''" "\<not> ends_with_bytes z ''bl''" "\<not> ends_with_bytes z ''iz''"
    using ends_len[of z "''at''"] ends_len[of z "''bl''"] ends_len[of z "''iz''"] by auto
  with False show ?thesis by (simp add: stem_en_tail_def adds_e_def Let_def)
qed

lemma double_drops:
  "stem_en_double z = (if drops_double z then butlast z else z)"
proof (cases "ends_with_double_consonant_en z")
  case False
  then show ?thesis by (simp add: stem_en_double_def drops_double_def)
next
  case True
  then have "\<not> length z < 2"
    by (auto simp: ends_with_double_consonant_en_def Let_def split: if_splits)
  then have "z \<noteq> []" by auto
  then have "last z = z ! (length z - 1)" by (rule last_conv_nth)
  with True show ?thesis
    by (auto simp: stem_en_double_def drops_double_def Let_def butlast_conv_take)
qed

lemma y_turns:
  "stem_en_y w = (if turns_y w then butlast w @ ''i'' else w)"
proof (cases "w = []")
  case True
  then show ?thesis by (simp add: stem_en_y_def turns_y_def)
next
  case False
  then have l: "last w = w ! (length w - 1)" by (rule last_conv_nth)
  have u: "w[length w - 1 := CHR ''i''] = butlast w @ ''i''"
    using False by (metis append_butlast_last_id length_butlast list_update_length)
  from False l u show ?thesis
    by (auto simp: stem_en_y_def turns_y_def Let_def ends_single butlast_conv_take)
qed

text \<open>What the last character of a word excludes.\<close>

lemma not_s: "last u \<noteq> CHR ''s'' \<Longrightarrow>
    \<not> ends_with_bytes u ''sses'' \<and> \<not> ends_with_bytes u ''ies'' \<and> \<not> cuts_s u"
  using ends_last[of u "''sses''"] ends_last[of u "''ies''"] ends_last[of u "''s''"]
  by (auto simp: cuts_s_def)

lemma not_d: "last u \<noteq> CHR ''d'' \<Longrightarrow> \<not> cuts_eed u \<and> \<not> cuts_ed u"
  using ends_last[of u "''eed''"] ends_last[of u "''ed''"]
  by (auto simp: cuts_eed_def cuts_ed_def)

lemma not_g: "last u \<noteq> CHR ''g'' \<Longrightarrow> \<not> cuts_ing u"
  using ends_last[of u "''ing''"] by (auto simp: cuts_ing_def)

lemma not_tlz:
  "last u \<noteq> CHR ''t'' \<Longrightarrow> last u \<noteq> CHR ''l'' \<Longrightarrow> last u \<noteq> CHR ''z'' \<Longrightarrow> \<not> adds_e u"
  using ends_last[of u "''at''"] ends_last[of u "''bl''"] ends_last[of u "''iz''"]
  by (auto simp: adds_e_def)

lemma not_y: "last u \<noteq> CHR ''y'' \<Longrightarrow> \<not> turns_y u"
  using ends_last[of u "''y''"] by (auto simp: turns_y_def)

lemma last_two_nth:
  assumes "2 \<le> length u"
  shows "last u = u ! (length u - 1) \<and> last (butlast u) = u ! (length u - 2)"
proof -
  from assms have a: "u \<noteq> []" by auto
  have "length (butlast u) \<noteq> 0" using assms by simp
  then have b: "butlast u \<noteq> []" by (simp del: length_butlast)
  have "last (butlast u) = butlast u ! (length (butlast u) - 1)" using b by (rule last_conv_nth)
  also have "\<dots> = butlast u ! (length u - 2)" by (simp add: numeral_2_eq_2)
  also have "\<dots> = u ! (length u - 2)" using assms by (intro nth_butlast) simp
  finally show ?thesis using a by (simp add: last_conv_nth)
qed

lemma double_consonant:
  assumes "ends_with_double_consonant_en u"
  shows "2 \<le> length u \<and> is_consonant_en (last u) \<and> last (butlast u) = last u"
proof -
  from assms have n: "2 \<le> length u"
    by (auto simp: ends_with_double_consonant_en_def Let_def split: if_splits)
  from last_two_nth[OF n] assms n show ?thesis
    by (auto simp: ends_with_double_consonant_en_def Let_def split: if_splits)
qed

lemma not_double: "\<not> is_consonant_en (last u) \<Longrightarrow> \<not> drops_double u"
  using double_consonant[of u] by (auto simp: drops_double_def)

lemma ends_two:
  assumes "ends_with_bytes u [a, b]"
  shows "2 \<le> length u \<and> last u = b \<and> last (butlast u) = a"
proof -
  from assms obtain p where "u = p @ [a, b]" by (auto simp: ends_with_suffix suffix_def)
  then have "u = (p @ [a]) @ [b]" by simp
  then show ?thesis by (simp only: butlast_snoc last_snoc length_append) simp
qed

lemma not_double_two: "ends_with_bytes u [a, b] \<Longrightarrow> a \<noteq> b \<Longrightarrow> \<not> drops_double u"
  using double_consonant[of u] ends_two[of u a b] by (auto simp: drops_double_def)

lemma vowel_e: "\<not> is_consonant_en CHR ''e''" "\<not> is_consonant_en CHR ''i''"
  by (simp_all add: is_consonant_en_def is_vowel_en_def)

lemma tail_phase_adds: "adds_e v \<Longrightarrow> tail_phase v = v @ ''e''"
proof -
  assume "adds_e v"
  then have t: "stem_en_tail v = v @ ''e''" by (simp add: tail_adds)
  have "\<not> drops_double (v @ ''e'')" by (rule not_double) (simp add: vowel_e)
  moreover have "\<not> turns_y (v @ ''e'')" by (rule not_y) simp
  ultimately show ?thesis by (simp add: tail_phase_def t double_drops y_turns)
qed

lemma tail_phase_none:
  "\<not> adds_e v \<Longrightarrow> \<not> drops_double v \<Longrightarrow> \<not> turns_y v \<Longrightarrow> tail_phase v = v"
  by (simp add: tail_phase_def tail_adds double_drops y_turns)

lemma tail_phase_cut:
  assumes "\<not> adds_e v"
  shows "tail_phase v =
    (let r = (if drops_double v then butlast v else v)
     in if turns_y r then butlast r @ ''i'' else r)"
  using assms by (simp add: tail_phase_def tail_adds double_drops y_turns Let_def)

lemma tail_phase_length: "length (tail_phase v) \<le> length v + 1"
  by (auto simp: tail_phase_def tail_adds double_drops y_turns)

lemma tail_phase_short: "\<not> adds_e v \<Longrightarrow> length (tail_phase v) \<le> length v"
  by (auto simp: tail_phase_def tail_adds double_drops y_turns turns_y_def)

lemma cuts_s_last:
  assumes "cuts_s t"
  shows "last (butlast t) \<noteq> CHR ''s''"
proof
  assume l: "last (butlast t) = CHR ''s''"
  from assms have e: "ends_with_bytes t ''s''" and n: "\<not> ends_with_bytes t ''ss''"
    and k: "3 < length t" by (simp_all add: cuts_s_def)
  from e have t: "t \<noteq> []" "last t = CHR ''s''" by (simp_all add: ends_single)
  have "length (butlast t) \<noteq> 0" using k by simp
  then have b: "butlast t \<noteq> []" by (simp del: length_butlast)
  have "t = butlast t @ [last t]" using t(1) by simp
  also have "butlast t = butlast (butlast t) @ [last (butlast t)]" using b by simp
  finally have "t = butlast (butlast t) @ ''ss''" using l t(2) by simp
  then have "suffix ''ss'' t" by (rule suffixI)
  with n show False by (simp add: ends_with_suffix)
qed

lemma cut_s_length: "3 \<le> length t \<Longrightarrow> 3 \<le> length (cut_s t)"
  by (auto simp: cut_s_def cuts_s_def)

lemma plural_cases:
  assumes "\<not> ends_with_bytes t ''sses''" "\<not> ends_with_bytes t ''ies''"
  shows "stem_en_plural t = Inr (cut_s t)
    \<or> (stem_en_plural t = Inl t \<and> cut_s t = t \<and> last t = CHR ''s'')"
proof (cases "cuts_s t")
  case True
  then show ?thesis by (simp add: plural_cut_s cut_s_def)
next
  case False
  from plural_none[OF assms False] False show ?thesis
    by (auto simp: cut_s_def ends_single)
qed

lemma verb_cases:
  assumes "\<not> cuts_eed x"
  shows "stem_en_verb x = Inr (cut_verb x)
    \<or> (stem_en_verb x = Inl x \<and> cut_verb x = x
        \<and> (ends_with_bytes x ''ed'' \<or> ends_with_bytes x ''ing''))"
proof -
  consider (ed) "cuts_ed x" | (ing) "\<not> cuts_ed x" "cuts_ing x"
    | (none) "\<not> cuts_ed x" "\<not> cuts_ing x" by blast
  then show ?thesis
  proof cases
    case ed
    then show ?thesis by (simp add: verb_cut_ed cut_verb_def)
  next
    case ing
    then show ?thesis by (simp add: verb_cut_ing cut_verb_def)
  next
    case none
    from verb_none[OF assms none] none show ?thesis by (auto simp: cut_verb_def)
  qed
qed

lemma tail_phase_ed_ing:
  assumes "ends_with_bytes x ''ed'' \<or> ends_with_bytes x ''ing''"
  shows "tail_phase x = x"
proof (rule tail_phase_none)
  from assms have l: "last x = CHR ''d'' \<or> last x = CHR ''g''"
    using ends_last[of x "''ed''"] ends_last[of x "''ing''"] by auto
  then show "\<not> adds_e x" by (intro not_tlz) auto
  from l show "\<not> turns_y x" by (intro not_y) auto
  from assms have "ends_with_bytes x ''ed'' \<or> ends_with_bytes x ''ng''"
    using ends_longer[of x "''i''" "''ng''"] by auto
  then show "\<not> drops_double x"
    using not_double_two[of x "CHR ''e''" "CHR ''d''"] not_double_two[of x "CHR ''n''" "CHR ''g''"]
    by auto
qed

lemma tail_phase_s:
  assumes "last x = CHR ''s''"
  shows "tail_phase x = x"
proof (rule tail_phase_none)
  from assms show "\<not> adds_e x" by (intro not_tlz) auto
  from assms show "\<not> turns_y x" by (intro not_y) auto
  from assms show "\<not> drops_double x" by (simp add: drops_double_def)
qed

lemma tail_phase_vowel:
  assumes "last x = CHR ''e'' \<or> last x = CHR ''i''"
  shows "tail_phase x = x"
proof (rule tail_phase_none)
  from assms show "\<not> adds_e x" by (intro not_tlz) auto
  from assms show "\<not> turns_y x" by (intro not_y) auto
  from assms show "\<not> drops_double x" by (intro not_double) (auto simp: vowel_e)
qed

lemma stem_en_unfold:
  "stem_en tok =
    (if length tok < 3 then tok
     else case stem_en_plural tok of
       Inl r \<Rightarrow> r
     | Inr t1 \<Rightarrow>
        if length t1 < 3 then t1
        else case stem_en_verb t1 of Inl r \<Rightarrow> r | Inr t2 \<Rightarrow> tail_phase t2)"
  unfolding stem_en_def tail_phase_def by (rule refl)

lemma first_pass_cut2:
  assumes n: "3 \<le> length t" and e: "ends_with_bytes t ''sses'' \<or> ends_with_bytes t ''ies''"
  shows "stem_en t = take (length t - 2) t
    \<and> (ends_with_bytes (take (length t - 2) t) ''ss'' \<or> last (take (length t - 2) t) = CHR ''i'')"
proof -
  let ?t1 = "take (length t - 2) t"
  from e have l2: "ends_with_bytes ?t1 ''ss'' \<or> last ?t1 = CHR ''i''"
  proof
    assume "ends_with_bytes t ''sses''"
    then have "ends_with_bytes t (''ss'' @ ''es'')" by simp
    from ends_cut[OF this] show ?thesis by (simp add: numeral_2_eq_2)
  next
    assume "ends_with_bytes t ''ies''"
    then have "ends_with_bytes t (''i'' @ ''es'')" by simp
    from ends_cut[OF this] have "ends_with_bytes ?t1 ''i''" by (simp add: numeral_2_eq_2)
    from ends_last[OF this] show ?thesis by simp
  qed
  from e have l: "last ?t1 = CHR ''s'' \<or> last ?t1 = CHR ''i''"
  proof
    assume "ends_with_bytes t ''sses''"
    then have "ends_with_bytes t (''ss'' @ ''es'')" by simp
    from ends_cut[OF this] have "ends_with_bytes ?t1 ''ss''" by (simp add: numeral_2_eq_2)
    from ends_last[OF this] show ?thesis by simp
  next
    assume "ends_with_bytes t ''ies''"
    then have "ends_with_bytes t (''i'' @ ''es'')" by simp
    from ends_cut[OF this] have "ends_with_bytes ?t1 ''i''" by (simp add: numeral_2_eq_2)
    from ends_last[OF this] show ?thesis by simp
  qed
  then have d: "last ?t1 \<noteq> CHR ''d''" and g: "last ?t1 \<noteq> CHR ''g''" by auto
  have p: "stem_en_plural t = Inr ?t1" using e by (rule plural_cut2)
  have ne: "\<not> cuts_eed ?t1" "\<not> cuts_ed ?t1" using not_d[OF d] by simp_all
  have ni: "\<not> cuts_ing ?t1" using g by (rule not_g)
  have c: "cut_verb ?t1 = ?t1" using ne ni by (simp add: cut_verb_def)
  have "\<not> ends_with_bytes ?t1 ''ed''" using d ends_last[of ?t1 "''ed''"] by auto
  moreover have "\<not> ends_with_bytes ?t1 ''ing''" using g ends_last[of ?t1 "''ing''"] by auto
  ultimately have v: "stem_en_verb ?t1 = Inr ?t1" using verb_cases[OF ne(1)] c by auto
  have f: "tail_phase ?t1 = ?t1"
    using l
  proof
    assume "last ?t1 = CHR ''s''"
    then show ?thesis by (rule tail_phase_s)
  next
    assume "last ?t1 = CHR ''i''"
    then show ?thesis by (intro tail_phase_vowel) simp
  qed
  have "stem_en t = ?t1"
    unfolding stem_en_unfold[of t] p using n v f by simp
  with l2 show ?thesis by simp
qed

lemma first_pass_eed:
  assumes n: "3 \<le> length t"
    and e: "\<not> ends_with_bytes t ''sses''" "\<not> ends_with_bytes t ''ies''"
    and c: "cuts_eed (cut_s t)"
  shows "stem_en t = butlast (cut_s t) \<and> last (butlast (cut_s t)) = CHR ''e''"
proof -
  let ?x = "cut_s t"
  from c have x: "ends_with_bytes ?x ''eed''" "4 < length ?x" by (simp_all add: cuts_eed_def)
  from x(1) have "last ?x = CHR ''d''" using ends_last[of ?x "''eed''"] by simp
  then have "cut_s t = t \<longrightarrow> last t \<noteq> CHR ''s''" by auto
  with plural_cases[OF e] have p: "stem_en_plural t = Inr ?x" by auto
  have v: "stem_en_verb ?x = Inr (butlast ?x)" using c by (rule verb_cut_eed)
  have "ends_with_bytes (take (length ?x - length ''d'') ?x) ''ee''"
    using x(1) ends_cut[of ?x "''ee''" "''d''"] by simp
  then have "ends_with_bytes (butlast ?x) ''ee''" by (simp add: butlast_conv_take)
  then have l: "last (butlast ?x) = CHR ''e''" using ends_last[of "butlast ?x" "''ee''"] by simp
  then have f: "tail_phase (butlast ?x) = butlast ?x" by (intro tail_phase_vowel) simp
  have "stem_en t = butlast ?x"
    unfolding stem_en_unfold[of t] p using n v f x(2) by simp
  with l show ?thesis by simp
qed

lemma first_pass_rest:
  assumes n: "3 \<le> length t"
    and e: "\<not> ends_with_bytes t ''sses''" "\<not> ends_with_bytes t ''ies''"
    and c: "\<not> cuts_eed (cut_s t)"
  shows "stem_en t = tail_phase (cut_verb (cut_s t))"
proof -
  let ?x = "cut_s t"
  have nx: "\<not> length ?x < 3" using cut_s_length[OF n] by simp
  from plural_cases[OF e] show ?thesis
  proof
    assume p: "stem_en_plural t = Inr ?x"
    from verb_cases[OF c] show ?thesis
    proof
      assume v: "stem_en_verb ?x = Inr (cut_verb ?x)"
      show ?thesis unfolding stem_en_unfold[of t] p using n nx v by simp
    next
      assume v: "stem_en_verb ?x = Inl ?x \<and> cut_verb ?x = ?x
        \<and> (ends_with_bytes ?x ''ed'' \<or> ends_with_bytes ?x ''ing'')"
      then have f: "tail_phase ?x = ?x" by (intro tail_phase_ed_ing) simp
      from v have v1: "stem_en_verb ?x = Inl ?x" and v2: "cut_verb ?x = ?x" by simp_all
      show ?thesis unfolding stem_en_unfold[of t] p v2 f using n nx v1 by simp
    qed
  next
    assume p: "stem_en_plural t = Inl t \<and> cut_s t = t \<and> last t = CHR ''s''"
    then have l: "last t = CHR ''s''" and p1: "stem_en_plural t = Inl t" and p2: "cut_s t = t"
      by simp_all
    have "last t \<noteq> CHR ''d''" "last t \<noteq> CHR ''g''" using l by simp_all
    then have "\<not> cuts_ed t" "\<not> cuts_ing t" using not_d[of t] not_g[of t] by simp_all
    then have c: "cut_verb t = t" by (simp add: cut_verb_def)
    have f: "tail_phase t = t" using l by (rule tail_phase_s)
    show ?thesis unfolding stem_en_unfold[of t] p1 p2 c f using n by simp
  qed
qed

lemma cut_verb_length: "length (cut_verb x) \<le> length x"
  by (simp add: cut_verb_def cut_suffix_def Let_def)

lemma cut_verb_shorter:
  assumes "cuts_ed x \<or> cuts_ing x"
  shows "length (cut_verb x) + 2 \<le> length x"
proof -
  have "cuts_ed x \<Longrightarrow> 2 \<le> length x" using ends_len[of x "''ed''"] by (simp add: cuts_ed_def)
  moreover have "cuts_ing x \<Longrightarrow> 3 \<le> length x"
    using ends_len[of x "''ing''"] by (simp add: cuts_ing_def)
  ultimately show ?thesis using assms by (auto simp: cut_verb_def cut_suffix_def Let_def)
qed

lemma cut_s_le: "length (cut_s t) \<le> length t"
  by (simp add: cut_s_def)

lemma cut_word_le: "length (cut_word t) \<le> length t"
proof -
  have "length (cut_word t) \<le> length (cut_verb (cut_s t))" by (simp add: cut_word_def Let_def)
  also have "\<dots> \<le> length (cut_s t)" by (rule cut_verb_length)
  also have "\<dots> \<le> length t" by (rule cut_s_le)
  finally show ?thesis .
qed

lemma y_length: "length (stem_en_y w) = length w"
  by (auto simp: y_turns turns_y_def)

lemma no_rule_vowel:
  assumes "last u = CHR ''e'' \<or> last u = CHR ''i''"
  shows "\<not> rule_applies u"
proof -
  from assms have l: "last u \<noteq> CHR ''s''" "last u \<noteq> CHR ''d''" "last u \<noteq> CHR ''g''"
    "last u \<noteq> CHR ''t''" "last u \<noteq> CHR ''l''" "last u \<noteq> CHR ''z''" "last u \<noteq> CHR ''y''"
    "\<not> is_consonant_en (last u)"
    by (auto simp: vowel_e)
  from not_s[OF l(1)] not_d[OF l(2)] not_g[OF l(3)] not_tlz[OF l(4,5,6)] not_y[OF l(7)]
    not_double[OF l(8)]
  show ?thesis by (simp add: rule_applies_def)
qed

lemma no_rule_ss:
  assumes "ends_with_bytes u ''ss''"
  shows "\<not> rule_applies u"
proof -
  from ends_two[OF assms] have l: "last u = CHR ''s''" and b: "last (butlast u) = CHR ''s''"
    by simp_all
  from l have m: "last u \<noteq> CHR ''d''" "last u \<noteq> CHR ''g''"
    "last u \<noteq> CHR ''t''" "last u \<noteq> CHR ''l''" "last u \<noteq> CHR ''z''" "last u \<noteq> CHR ''y''"
    by simp_all
  have es: "\<not> ends_with_bytes u ''es''" using ends_two[of u "CHR ''e''" "CHR ''s''"] b by auto
  have 1: "\<not> ends_with_bytes u ''sses''" using es ends_longer[of u "''ss''" "''es''"] by auto
  have 2: "\<not> ends_with_bytes u ''ies''" using es ends_longer[of u "''i''" "''es''"] by auto
  have 3: "\<not> cuts_s u" using assms by (simp add: cuts_s_def)
  have 4: "\<not> drops_double u" using l by (simp add: drops_double_def)
  from 1 2 3 4 not_d[OF m(1)] not_g[OF m(2)] not_tlz[OF m(3,4,5)] not_y[OF m(6)]
  show ?thesis by (simp add: rule_applies_def)
qed

lemma stem_en_fixed_if:
  assumes "\<not> rule_applies u"
  shows "stem_en u = u"
proof (cases "length u < 3")
  case True
  then show ?thesis by (simp add: stem_en_unfold)
next
  case False
  then have n: "3 \<le> length u" by simp
  with assms have r: "\<not> ends_with_bytes u ''sses''" "\<not> ends_with_bytes u ''ies''" "\<not> cuts_s u"
    "\<not> cuts_eed u" "\<not> cuts_ed u" "\<not> cuts_ing u" "\<not> adds_e u" "\<not> drops_double u"
    "\<not> turns_y u"
    by (simp_all add: rule_applies_def)
  have x: "cut_s u = u" using r(3) by (simp add: cut_s_def)
  have v: "cut_verb u = u" using r(5,6) by (simp add: cut_verb_def)
  have "stem_en u = tail_phase (cut_verb (cut_s u))"
    using n r(1,2) by (rule first_pass_rest) (simp add: x r(4))
  also have "\<dots> = tail_phase u" by (simp add: x v)
  also have "\<dots> = u" using r(7,8,9) by (rule tail_phase_none)
  finally show ?thesis .
qed

lemma stem_en_changed_if:
  assumes "rule_applies u"
  shows "stem_en u \<noteq> u"
proof -
  from assms have n: "3 \<le> length u" by (simp add: rule_applies_def)
  consider (cut2) "ends_with_bytes u ''sses'' \<or> ends_with_bytes u ''ies''"
    | (eed) "\<not> ends_with_bytes u ''sses''" "\<not> ends_with_bytes u ''ies''" "cuts_eed (cut_s u)"
    | (rest) "\<not> ends_with_bytes u ''sses''" "\<not> ends_with_bytes u ''ies''" "\<not> cuts_eed (cut_s u)"
    by blast
  then show ?thesis
  proof cases
    case cut2
    from first_pass_cut2[OF n cut2] have "length (stem_en u) = length u - 2" by simp
    with n show ?thesis by auto
  next
    case eed
    from first_pass_eed[OF n eed] have "length (stem_en u) = length (cut_s u) - 1" by simp
    with cut_s_le[of u] n show ?thesis by auto
  next
    case rest
    let ?v = "cut_verb (cut_s u)"
    have o: "stem_en u = tail_phase ?v" using n rest by (rule first_pass_rest)
    show ?thesis
    proof (cases "cuts_s u")
      case True
      then have x: "cut_s u = butlast u" and l: "last u = CHR ''s''" and ne: "u \<noteq> []"
        by (simp_all add: cut_s_def cuts_s_def ends_single)
      have "length ?v \<le> length u - 1" using cut_verb_length[of "butlast u"] by (simp add: x)
      with n have lv: "length ?v < length u" by linarith
      show ?thesis
      proof (cases "adds_e ?v")
        case True
        then have "stem_en u = ?v @ ''e''" by (simp add: o tail_phase_adds)
        then have "last (stem_en u) = CHR ''e''" by simp
        with l show ?thesis by auto
      next
        case False
        from tail_phase_short[OF this] lv have "length (stem_en u) < length u" by (simp add: o)
        then show ?thesis by auto
      qed
    next
      case False
      then have x: "cut_s u = u" by (simp add: cut_s_def)
      show ?thesis
      proof (cases "cuts_ed u \<or> cuts_ing u")
        case True
        from cut_verb_shorter[OF this] tail_phase_length[of "cut_verb u"]
        have "length (stem_en u) < length u" by (simp add: o x)
        then show ?thesis by auto
      next
        case n2: False
        then have v: "cut_verb u = u" by (simp add: cut_verb_def)
        from assms n rest False n2 have d: "adds_e u \<or> drops_double u \<or> turns_y u"
          by (simp add: rule_applies_def x)
        show ?thesis
        proof (cases "adds_e u")
          case True
          then have "stem_en u = u @ ''e''" by (simp add: o x v tail_phase_adds)
          then show ?thesis by (metis length_append_singleton n_not_Suc_n)
        next
          case na: False
          show ?thesis
          proof (cases "drops_double u")
            case True
            have "stem_en u = stem_en_y (butlast u)"
              using na True by (simp add: o x v tail_phase_def tail_adds double_drops)
            then have "length (stem_en u) = length u - 1" by (simp add: y_length)
            with n show ?thesis by auto
          next
            case False
            with d na have y: "turns_y u" by simp
            then have "stem_en u = butlast u @ ''i''"
              using na False by (simp add: o x v tail_phase_def tail_adds double_drops y_turns)
            then have "last (stem_en u) = CHR ''i''" by simp
            moreover from y have "last u = CHR ''y''" by (simp add: turns_y_def ends_single)
            ultimately show ?thesis by auto
          qed
        qed
      qed
    qed
  qed
qed

lemma stem_en_fixed_iff: "stem_en u = u \<longleftrightarrow> \<not> rule_applies u"
  using stem_en_fixed_if stem_en_changed_if by blast

lemma cut_word_eq_cut_s:
  assumes "cut_word t = cut_s t"
  shows "\<not> cuts_ed (cut_s t) \<and> \<not> cuts_ing (cut_s t) \<and> \<not> drops_double (cut_s t)
    \<and> cut_verb (cut_s t) = cut_s t"
proof -
  let ?x = "cut_s t" and ?v = "cut_verb (cut_s t)"
  have d: "\<not> drops_double ?v"
  proof
    assume d: "drops_double ?v"
    then have "2 \<le> length ?v" using double_consonant[of ?v] by (simp add: drops_double_def)
    moreover from d assms have "butlast ?v = ?x" by (simp add: cut_word_def Let_def)
    then have "length ?x = length (butlast ?v)" by simp
    then have "length ?x = length ?v - 1" by simp
    ultimately show False using cut_verb_length[of ?x] by linarith
  qed
  with assms have v: "?v = ?x" by (simp add: cut_word_def Let_def)
  have "\<not> (cuts_ed ?x \<or> cuts_ing ?x)"
  proof
    assume "cuts_ed ?x \<or> cuts_ing ?x"
    from cut_verb_shorter[OF this] v show False by simp
  qed
  with d v show ?thesis by simp
qed

lemma restrips_cut2:
  assumes "ends_with_bytes t ''sses'' \<or> ends_with_bytes t ''ies''"
  shows "\<not> restrips t"
proof -
  from assms have l: "last t = CHR ''s''"
    using ends_last[of t "''sses''"] ends_last[of t "''ies''"] by auto
  have x: "cut_s t = t" using assms by (auto simp: cut_s_def cuts_s_def)
  have "last t \<noteq> CHR ''d''" "last t \<noteq> CHR ''g''" using l by simp_all
  then have "\<not> cuts_ed t" "\<not> cuts_ing t" using not_d[of t] not_g[of t] by simp_all
  then have v: "cut_verb t = t" by (simp add: cut_verb_def)
  have "\<not> drops_double t" using l by (simp add: drops_double_def)
  then have "cut_word t = cut_s t" by (simp add: cut_word_def x v)
  then show ?thesis by (simp add: restrips_def)
qed

lemma restrips_eed:
  assumes "cuts_eed (cut_s t)"
  shows "\<not> restrips t"
proof -
  let ?x = "cut_s t"
  from assms have e: "ends_with_bytes ?x ''eed''" by (simp add: cuts_eed_def)
  then have d: "ends_with_bytes ?x ''ed''" by (rule eed_ed)
  have "\<not> cuts_ed ?x" using e by (simp add: cuts_ed_def)
  moreover have "\<not> cuts_ing ?x" using d ing_not_ed[of ?x] by (auto simp: cuts_ing_def)
  ultimately have v: "cut_verb ?x = ?x" by (simp add: cut_verb_def)
  have "\<not> drops_double ?x" using d by (rule not_double_two) simp
  then have "cut_word t = cut_s t" by (simp add: cut_word_def v)
  then show ?thesis by (simp add: restrips_def)
qed

lemma rest_no_rule:
  assumes e: "\<not> ends_with_bytes t ''sses''" "\<not> ends_with_bytes t ''ies''"
    and c: "\<not> cuts_eed (cut_s t)" and a: "\<not> adds_e (cut_verb (cut_s t))"
    and y: "\<not> turns_y (cut_word t)" and r: "cut_word t = cut_s t"
  shows "\<not> rule_applies (cut_word t)"
proof -
  let ?x = "cut_s t"
  from cut_word_eq_cut_s[OF r] have k: "\<not> cuts_ed ?x" "\<not> cuts_ing ?x" "\<not> drops_double ?x"
    "cut_verb ?x = ?x" by simp_all
  have s: "\<not> ends_with_bytes ?x ''sses'' \<and> \<not> ends_with_bytes ?x ''ies'' \<and> \<not> cuts_s ?x"
  proof (cases "cuts_s t")
    case True
    then have "last ?x \<noteq> CHR ''s''" using cuts_s_last[of t] by (simp add: cut_s_def)
    then show ?thesis by (rule not_s)
  next
    case False
    with e show ?thesis by (simp add: cut_s_def)
  qed
  from s c k a y r show ?thesis by (simp add: rule_applies_def)
qed

lemmas rule_defs =
  cuts_s_def cuts_eed_def cuts_ed_def cuts_ing_def adds_e_def drops_double_def turns_y_def
  ends_with_bytes_def cut_suffix_def has_vowel_en_def is_vowel_en_def
  ends_with_double_consonant_en_def is_consonant_en_def Let_def

text \<open>
  Claim C8, as the code has it. Stemming twice gives the same as stemming once for every
  token but those the first pass restrips, and for none of those: the tokens from which it
  cuts \<open>ed\<close> or \<open>ing\<close> or drops one letter of a doubled final consonant, to which it then
  appends no \<open>e\<close> and in which it turns no \<open>y\<close> into \<open>i\<close>, and of which it so leaves a
  word of three characters or more that a rule applies to. The stemmer makes one pass over
  its rules, so the word a cut leaves can itself end in a suffix of an earlier rule.
\<close>

theorem stem_en_idempotent_iff: "stem_en (stem_en t) = stem_en t \<longleftrightarrow> \<not> restrips t"
proof (cases "length t < 3")
  case True
  then have "stem_en t = t" by (simp add: stem_en_unfold)
  moreover have "\<not> rule_applies (cut_word t)"
    using True cut_word_le[of t] by (simp add: rule_applies_def)
  ultimately show ?thesis by (simp add: restrips_def)
next
  case False
  then have n: "3 \<le> length t" by simp
  consider (cut2) "ends_with_bytes t ''sses'' \<or> ends_with_bytes t ''ies''"
    | (eed) "\<not> ends_with_bytes t ''sses''" "\<not> ends_with_bytes t ''ies''" "cuts_eed (cut_s t)"
    | (rest) "\<not> ends_with_bytes t ''sses''" "\<not> ends_with_bytes t ''ies''" "\<not> cuts_eed (cut_s t)"
    by blast
  then show ?thesis
  proof cases
    case cut2
    let ?t1 = "take (length t - 2) t"
    from first_pass_cut2[OF n cut2] have o: "stem_en t = ?t1"
      and l: "ends_with_bytes ?t1 ''ss'' \<or> last ?t1 = CHR ''i''" by simp_all
    from l have "\<not> rule_applies ?t1" using no_rule_ss[of ?t1] no_rule_vowel[of ?t1] by auto
    then have "stem_en ?t1 = ?t1" by (rule stem_en_fixed_if)
    with o restrips_cut2[OF cut2] show ?thesis by simp
  next
    case eed
    from first_pass_eed[OF n eed] have o: "stem_en t = butlast (cut_s t)"
      and l: "last (butlast (cut_s t)) = CHR ''e''" by simp_all
    from l have "\<not> rule_applies (butlast (cut_s t))" by (intro no_rule_vowel) simp
    then have "stem_en (butlast (cut_s t)) = butlast (cut_s t)" by (rule stem_en_fixed_if)
    with o restrips_eed[OF eed(3)] show ?thesis by simp
  next
    case rest
    let ?v = "cut_verb (cut_s t)" and ?r = "cut_word t"
    have o: "stem_en t = tail_phase ?v" using n rest by (rule first_pass_rest)
    show ?thesis
    proof (cases "adds_e ?v")
      case True
      then have e: "stem_en t = ?v @ ''e''" by (simp add: o tail_phase_adds)
      have "\<not> rule_applies (?v @ ''e'')" by (rule no_rule_vowel) simp
      then have "stem_en (?v @ ''e'') = ?v @ ''e''" by (rule stem_en_fixed_if)
      with e True show ?thesis by (simp add: restrips_def)
    next
      case na: False
      have c: "tail_phase ?v = (if turns_y ?r then butlast ?r @ ''i'' else ?r)"
        using tail_phase_cut[OF na] by (simp add: cut_word_def Let_def)
      show ?thesis
      proof (cases "turns_y ?r")
        case True
        then have e: "stem_en t = butlast ?r @ ''i''" by (simp add: o c)
        have "\<not> rule_applies (butlast ?r @ ''i'')" by (rule no_rule_vowel) simp
        then have "stem_en (butlast ?r @ ''i'') = butlast ?r @ ''i''" by (rule stem_en_fixed_if)
        with e True show ?thesis by (simp add: restrips_def)
      next
        case ny: False
        then have e: "stem_en t = ?r" by (simp add: o c)
        have "?r = cut_s t \<Longrightarrow> \<not> rule_applies ?r"
          using rest na ny by (rule rest_no_rule)
        then have "restrips t \<longleftrightarrow> rule_applies ?r" using na ny by (auto simp: restrips_def)
        with e stem_en_fixed_iff[of ?r] show ?thesis by simp
      qed
    qed
  qed
qed

theorem stem_en_idempotent_iff_witness:
  "cut_word ''running'' = ''run'' \<and> \<not> rule_applies ''run'' \<and> \<not> restrips ''running''
    \<and> stem_en ''running'' = ''run''
    \<and> stem_en (stem_en ''running'') = stem_en ''running''"
proof -
  have c: "cut_word ''running'' = ''run''"
    by (simp add: cut_word_def cut_verb_def cut_s_def rule_defs)
  have r: "\<not> rule_applies ''run''" by (simp add: rule_applies_def rule_defs)
  have n: "\<not> restrips ''running''" by (simp add: restrips_def c r)
  have s: "stem_en ''running'' = ''run''" by (simp add: stem_en_defs)
  from stem_en_idempotent_iff[of "''running''"] c r n s show ?thesis by simp
qed

text \<open>
  C8 as stated fails on the ASCII lowercase token \<open>proceeded\<close>: its stem is \<open>proceed\<close>,
  and the stem of \<open>proceed\<close> is \<open>procee\<close>.
\<close>

theorem stem_en_idempotent_counterexample:
  "stem_en ''proceeded'' = ''proceed'' \<and> stem_en ''proceed'' = ''procee''
    \<and> stem_en (stem_en ''proceeded'') \<noteq> stem_en ''proceeded''"
proof -
  have a: "stem_en ''proceeded'' = ''proceed''" by (simp add: stem_en_defs)
  have b: "stem_en ''proceed'' = ''procee''" by (simp add: stem_en_defs)
  show ?thesis by (simp add: a b)
qed

subsection \<open>Document identifiers\<close>

lemmas docid_defs =
  doc_docid_def parse_docid_from_name_def parse_docid_step_def path_stem_def
  path_filename_def lang_of_path_def Let_def

text \<open>
  Claim C9, as the code has it. The identifier of an English document differs from that
  of a Russian document whenever the digits of the English file stem give a number below
  30000 and those of the Russian file stem give a number to which 30000 can be added
  within 32 bits. The code checks neither bound.
\<close>

theorem docid_spaces_disjoint:
  assumes "lang_of_path p = ''en''" "lang_of_path q = ''ru''"
    and "parse_docid_from_name p < 30000"
    and "parse_docid_from_name q \<le> 0xFFFFFFFF - 30000"
  shows "doc_docid p \<noteq> doc_docid q"
proof -
  let ?a = "parse_docid_from_name p" and ?b = "parse_docid_from_name q"
  have a: "unat ?a < 30000" using assms(3) by (simp add: word_less_nat_alt)
  have b: "unat ?b \<le> 4294937295" using assms(4) by (simp add: word_le_nat_alt)
  have "unat (?b + 30000) = unat ?b + 30000"
    using b by (simp add: unat_word_ariths)
  then have "unat (?b + 30000) \<noteq> unat ?a" using a by simp
  then have "?b + 30000 \<noteq> ?a" by auto
  then show ?thesis using assms(1,2) by (auto simp: doc_docid_def)
qed

theorem docid_spaces_disjoint_witness:
  "lang_of_path ''/c/enwiki/text/12.txt'' = ''en'' \<and> lang_of_path ''/c/ruwiki/text/12.txt'' = ''ru''
    \<and> parse_docid_from_name ''/c/enwiki/text/12.txt'' < 30000
    \<and> parse_docid_from_name ''/c/ruwiki/text/12.txt'' \<le> 0xFFFFFFFF - 30000
    \<and> doc_docid ''/c/enwiki/text/12.txt'' \<noteq> doc_docid ''/c/ruwiki/text/12.txt''"
proof -
  have h: "lang_of_path ''/c/enwiki/text/12.txt'' = ''en''"
      "lang_of_path ''/c/ruwiki/text/12.txt'' = ''ru''"
      "parse_docid_from_name ''/c/enwiki/text/12.txt'' < 30000"
      "parse_docid_from_name ''/c/ruwiki/text/12.txt'' \<le> 0xFFFFFFFF - 30000"
    by (simp_all add: docid_defs)
  from docid_spaces_disjoint[OF h] h show ?thesis by simp
qed

text \<open>
  C9 as stated fails: the English file \<open>30005.txt\<close> and the Russian file \<open>5.txt\<close> both get
  the identifier 30005.
\<close>

theorem docid_spaces_counterexample:
  "lang_of_path ''/c/enwiki/text/30005.txt'' = ''en''
    \<and> lang_of_path ''/c/ruwiki/text/5.txt'' = ''ru''
    \<and> doc_docid ''/c/enwiki/text/30005.txt'' = 30005
    \<and> doc_docid ''/c/ruwiki/text/5.txt'' = 30005"
  by (simp add: docid_defs)

subsection \<open>Loading the dictionary\<close>

lemmas load_defs =
  load_index_def load_docs_def load_docs_line_def load_dict_def load_dict_line_def
  find_from_def substr_def strtoull_def is_space_c_def is_digit_b_def Let_def bytes_of_def

lemma find_first_Some:
  "find_first c xs = Some k \<Longrightarrow>
    k < length xs \<and> count_list xs c = Suc (count_list (drop (Suc k) xs) c)"
  by (induction xs arbitrary: k) (auto split: if_splits)

lemma find_from_Some:
  assumes "find_from c s pos = Some p"
  shows "count_list (drop pos s) c = Suc (count_list (drop (p + 1) s) c)"
proof -
  from assms obtain k where k: "find_first c (drop pos s) = Some k" "p = k + pos"
    by (auto simp: find_from_def split: if_splits)
  from find_first_Some[OF k(1)]
  have "count_list (drop pos s) c = Suc (count_list (drop (Suc k) (drop pos s)) c)"
    by simp
  then show ?thesis by (simp add: k(2) add.commute)
qed

lemma load_dict_line_skip:
  assumes "count_list l 0x09 < 3"
  shows "load_dict_line st l = st"
proof -
  have False
    if a: "find_from 0x09 l 0 = Some p1" "find_from 0x09 l (p1 + 1) = Some p2"
      "find_from 0x09 l (p2 + 1) = Some p3" for p1 p2 p3
  proof -
    have "count_list l 0x09 \<ge> 3"
      using find_from_Some[OF a(1)] find_from_Some[OF a(2)] find_from_Some[OF a(3)] by simp
    with assms show False by simp
  qed
  then show ?thesis
    by (auto simp: load_dict_line_def split: option.splits)
qed

text \<open>
  Claim C4, as the code has it. A line of \<^verbatim>\<open>terms.tsv\<close> with fewer than four tab-separated
  fields (fewer than three tabs) is skipped: \<^verbatim>\<open>load_dict\<close> does not end the process, and it
  loads what it would load from the file without that line.
\<close>

theorem load_dict_skips_short_line:
  assumes "count_list l 0x09 < 3"
  shows "load_dict (Some (xs @ l # ys)) = load_dict (Some (xs @ ys))
    \<and> load_dict (Some (xs @ l # ys)) = Inr (foldl load_dict_line ([], []) (xs @ ys))"
  using assms by (simp add: load_dict_def load_dict_line_skip)

theorem load_dict_skips_short_line_witness:
  "count_list (tsv_line [''a'', ''1'']) 0x09 < 3
    \<and> load_dict (Some ([] @ tsv_line [''a'', ''1''] # sample_terms_tsv))
        = load_dict (Some ([] @ sample_terms_tsv))"
  using load_dict_skips_short_line[of "tsv_line [''a'', ''1'']" "[]" sample_terms_tsv]
  by (simp add: bytes_of_def)

text \<open>
  C4 as stated fails: on a file whose first line has two fields, the reader returns a
  dictionary (that of the second line) instead of ending the process.
\<close>

theorem load_dict_short_line_counterexample:
  "count_list (tsv_line [''a'', ''1'']) 0x09 < 3
    \<and> load_dict (Some [tsv_line [''a'', ''1''], tsv_line [''b'', ''1'', ''0'', ''4'']])
        = Inr ([0x62], [\<lparr> term_off = 0, term_len = 1, df = 1, post_off = 0, post_len = 4 \<rparr>])"
  by (simp add: load_defs)

subsection \<open>Query evaluation\<close>



















lemma remdups_adj_sorted_strict: "sorted (xs::u32 list) \<Longrightarrow> sorted_wrt (<) (remdups_adj xs)"
  by (induction xs rule: remdups_adj.induct) (auto split: if_splits)



lemma sample_read_alpha: "read_u32s sample_postings_bin 0 4 (Suc 0) = [1]"
  by (simp add: sample_postings_bin_def read_u32s_def upt_conv_Cons)

lemma sample_read_beta: "read_u32s sample_postings_bin 4 8 2 = [1, 30002]"
  by (simp add: sample_postings_bin_def read_u32s_def upt_conv_Cons)



lemmas eval_defs =
  load_postings_def binsearch_term_def term_cmp_def dict_term_ptr_def block_words_def
  bytes_of_def lowercase_inplace_def lower_ascii_def Let_def op_not_def op_and_def
  sample_postings_bin_def sample_junk_def upt_conv_Cons

text \<open>
  What the reader does with an entry whose range lies past the end of the file: the block
  comes back as \<^verbatim>\<open>malloc\<close> returned it and the failbit is set; from then on every posting
  list is such a block, also that of a well-formed entry.
\<close>

lemma load_postings_past_end:
  "load_postings sample_junk
      (sample_index\<lparr> dict := [\<lparr> term_off = 0, term_len = 5, df = 1, post_off = 100, post_len = 4 \<rparr>] \<rparr>)
      \<lparr> failbit = False, blocks = 0 \<rparr> (bytes_of ''alpha'')
    = Some ([0xAAAAAAAA], \<lparr> failbit = True, blocks = 1 \<rparr>)"
  by (simp add: sample_index_def eval_defs)

lemma load_postings_failbit_sticks:
  "load_postings sample_junk sample_index \<lparr> failbit = True, blocks = 1 \<rparr> (bytes_of ''alpha'')
    = Some ([0xAAAAAAAA], \<lparr> failbit = True, blocks = 2 \<rparr>)"
  by (simp add: sample_index_def eval_defs)



subsection \<open>The files the builder writes\<close>

lemma u32_roundtrip: "u32_of_bytes (u32_bytes w) = w"
proof (rule bit_word_eqI)
  fix n assume "n < LENGTH(32)"
  then consider "n < 8" | "8 \<le> n" "n < 16" | "16 \<le> n" "n < 24" | "24 \<le> n" "n < 32"
    by fastforce
  then show "bit (u32_of_bytes (u32_bytes w)) n = bit w n"
    by cases (auto simp: u32_bytes_def bit_simps)
qed

lemma unique_loop_remdups:
  "unique_loop kept xs = (if kept = [] then remdups_adj xs else butlast kept @ remdups_adj (last kept # xs))"
proof (induction xs arbitrary: kept)
  case Nil
  then show ?case by simp
next
  case (Cons x xs)
  then show ?case by (auto simp: butlast_append)
qed

lemma unique_sort_sorted: "sorted_wrt (<) (unique_loop [] (sort a))"
  by (simp add: unique_loop_remdups remdups_adj_sorted_strict)

lemma unique_sort_set: "set (unique_loop [] (sort a)) = set a"
  by (simp add: unique_loop_remdups)

lemma chunk_nth:
  "k < length a \<Longrightarrow> take 4 (drop (4 * k) (concat (map u32_bytes a) @ rest)) = u32_bytes (a ! k)"
proof (induction a arbitrary: k)
  case Nil
  then show ?case by simp
next
  case (Cons x a)
  show ?case
  proof (cases k)
    case 0
    then show ?thesis by (simp add: u32_bytes_def)
  next
    case (Suc k')
    have l: "length (u32_bytes x) = 4" by (simp add: u32_bytes_def)
    from Suc Cons.prems have "k' < length a" by simp
    from Cons.IH[OF this] Suc l show ?thesis by simp
  qed
qed

lemma length_concat_u32: "length (concat (map u32_bytes a)) = 4 * length a"
  by (induction a) (auto simp: u32_bytes_def)

lemma read_back:
  assumes "length pre = off"
  shows "read_u32s (pre @ concat (map u32_bytes a) @ rest) off (4 * length a) (length a) = a"
proof -
  have d: "drop off (pre @ concat (map u32_bytes a) @ rest) = concat (map u32_bytes a) @ rest"
    using assms by simp
  have t: "take (4 * length a) (concat (map u32_bytes a) @ rest) = concat (map u32_bytes a)"
    by (simp add: length_concat_u32)
  have "map (\<lambda>k. u32_of_bytes (take 4 (drop (4 * k) (concat (map u32_bytes a))))) [0..<length a]
        = map (\<lambda>k. a ! k) [0..<length a]"
  proof (rule map_cong[OF refl])
    fix k assume "k \<in> set [0..<length a]"
    then have "k < length a" by simp
    from chunk_nth[OF this, of "[]"] show "u32_of_bytes (take 4 (drop (4 * k) (concat (map u32_bytes a)))) = a ! k"
      by (simp add: u32_roundtrip)
  qed
  also have "\<dots> = a" by (rule map_nth)
  finally have m: "map (\<lambda>k. u32_of_bytes (take 4 (drop (4 * k) (concat (map u32_bytes a)))))
      [0..<length a] = a" .
  have "read_u32s (pre @ concat (map u32_bytes a) @ rest) off (4 * length a) (length a)
      = map (\<lambda>k. u32_of_bytes (take 4 (drop (4 * k)
          (take (min (4 * length a) (4 * length a))
             (drop off (pre @ concat (map u32_bytes a) @ rest)))))) [0..<length a]"
    by (simp only: read_u32s_def Let_def)
  also have "\<dots> = a" by (simp only: d t min.idem m)
  finally show ?thesis .
qed
lemma read_u32s_extend:
  assumes "off + len \<le> length post"
  shows "read_u32s (post @ bs) off len n = read_u32s post off len n"
proof -
  have "take (min len (4 * n)) (drop off (post @ bs)) = take (min len (4 * n)) (drop off post)"
    using assms by simp
  then show ?thesis by (simp only: read_u32s_def Let_def)
qed

lemma term_line_ok_extend: "term_line_ok post l \<Longrightarrow> term_line_ok (post @ bs) l"
  by (auto simp: term_line_ok_def read_u32s_extend)

lemma final_postings_length: "length (final_postings e) \<le> length (te_postings e)"
proof -
  have "length (remdups_adj (sort (te_postings e))) \<le> length (sort (te_postings e))"
    by (rule remdups_adj_length)
  then show ?thesis by (simp add: final_postings_def unique_loop_remdups)
qed

lemma write_entry_step:
  assumes o: "unat off = length post"
    and n: "length (te_postings e) < 2 ^ 32"
    and t: "length post + 4 * length (final_postings e) < 2 ^ 64"
  shows "\<exists>off' l. write_entry (off, terms, post) e
            = (off', terms @ [l], post @ concat (map u32_bytes (final_postings e)))
          \<and> unat off' = length post + 4 * length (final_postings e)
          \<and> term_line_ok (post @ concat (map u32_bytes (final_postings e))) l"
proof -
  let ?a = "final_postings e"
  let ?w = "of_nat (length ?a) :: u32"
  let ?bl = "ucast ?w * 4 :: u64"
  let ?l = "\<lparr> tl_term = te_term e, tl_df = ?w, tl_post_off = off, tl_post_len = ?bl \<rparr>"
  have la: "length ?a < 2 ^ 32" using final_postings_length[of e] n by simp
  have w: "unat ?w = length ?a" using la by (simp add: unat_of_nat)
  have uw: "unat (ucast ?w :: u64) = length ?a" using w la by (simp add: unsigned_ucast_eq take_bit_nat_eq_self)
  have bl: "unat ?bl = 4 * length ?a"
  proof -
    have "unat ?bl = (unat (ucast ?w :: u64) * unat (4 :: u64)) mod 2 ^ 64"
      by (simp add: unat_word_ariths)
    also have "\<dots> = (length ?a * 4) mod 2 ^ 64" by (simp add: uw)
    also have "\<dots> = length ?a * 4" using la by simp
    finally show ?thesis by simp
  qed
  have tk: "take (unat ?bl) (concat (map u32_bytes ?a)) = concat (map u32_bytes ?a)"
    by (simp add: bl length_concat_u32)
  have off': "unat (off + ?bl) = length post + 4 * length ?a"
  proof -
    have "unat (off + ?bl) = (unat off + unat ?bl) mod 2 ^ 64" by (simp add: unat_word_ariths)
    also have "\<dots> = (length post + 4 * length ?a) mod 2 ^ 64" by (simp only: o bl)
    also have "\<dots> = length post + 4 * length ?a" using t by simp
    finally show ?thesis .
  qed
  have rd: "read_u32s (post @ concat (map u32_bytes ?a)) (unat off) (unat ?bl) (unat ?w) = ?a"
    using read_back[of post "unat off" ?a "[]"] o by (simp add: bl w)
  have sel: "tl_post_off ?l = off" "tl_post_len ?l = ?bl" "tl_df ?l = ?w" by simp_all
  have srt: "sorted_wrt (<) ?a" by (simp add: final_postings_def unique_sort_sorted)
  have ok: "term_line_ok (post @ concat (map u32_bytes ?a)) ?l"
    unfolding term_line_ok_def sel
    unfolding rd
    unfolding bl w
    using srt o by (simp add: length_concat_u32)
  have "write_entry (off, terms, post) e = (off + ?bl, terms @ [?l], post @ concat (map u32_bytes ?a))"
    using tk by (simp add: write_entry_def Let_def final_postings_def)
  with off' ok show ?thesis by blast
qed

lemma write_fold:
  assumes "unat off = length post"
    and "\<forall>e \<in> set arr. length (te_postings e) < 2 ^ 32"
    and "length post + sum_list (map (\<lambda>e. 4 * length (final_postings e)) arr) < 2 ^ 64"
    and "\<forall>l \<in> set terms. term_line_ok post l"
  shows "\<exists>off' terms' post'. foldl write_entry (off, terms, post) arr = (off', terms', post')
     \<and> (\<forall>l \<in> set terms'. term_line_ok post' l)"
  using assms
proof (induction arr arbitrary: off terms post)
  case Nil
  then show ?case by simp
next
  case (Cons e arr)
  let ?post1 = "post @ concat (map u32_bytes (final_postings e))"
  from Cons.prems have n: "length (te_postings e) < 2 ^ 32"
    and t: "length post + 4 * length (final_postings e) < 2 ^ 64" by auto
  from write_entry_step[OF Cons.prems(1) n t, of terms] obtain off1 l where
    s: "write_entry (off, terms, post) e = (off1, terms @ [l], ?post1)"
    and o1: "unat off1 = length post + 4 * length (final_postings e)"
    and ok: "term_line_ok ?post1 l" by blast
  have o1': "unat off1 = length ?post1" using o1 by (simp add: length_concat_u32)
  have a: "\<forall>e \<in> set arr. length (te_postings e) < 2 ^ 32" using Cons.prems(2) by simp
  have b: "length ?post1 + sum_list (map (\<lambda>e. 4 * length (final_postings e)) arr) < 2 ^ 64"
    using Cons.prems(3) by (simp add: length_concat_u32)
  have c: "\<forall>l \<in> set (terms @ [l]). term_line_ok ?post1 l"
    using Cons.prems(4) ok by (auto intro: term_line_ok_extend)
  from Cons.IH[OF o1' a b c] s show ?case by simp
qed

lemma write_length:
  assumes "\<forall>e \<in> set arr. length (te_postings e) < 2 ^ 32"
  shows "length (snd (snd (foldl write_entry (off, terms, post) arr)))
        = length post + sum_list (map (\<lambda>e. 4 * length (final_postings e)) arr)"
  using assms
proof (induction arr arbitrary: off terms post)
  case Nil
  then show ?case by simp
next
  case (Cons e arr)
  let ?a = "final_postings e"
  let ?w = "of_nat (length ?a) :: u32"
  let ?bl = "ucast ?w * 4 :: u64"
  have la: "length ?a < 2 ^ 32" using final_postings_length[of e] Cons.prems by simp
  have w: "unat ?w = length ?a" using la by (simp add: unat_of_nat)
  have uw: "unat (ucast ?w :: u64) = length ?a" using w la by (simp add: unsigned_ucast_eq take_bit_nat_eq_self)
  have bl: "unat ?bl = 4 * length ?a"
  proof -
    have "unat ?bl = (unat (ucast ?w :: u64) * unat (4 :: u64)) mod 2 ^ 64"
      by (simp add: unat_word_ariths)
    also have "\<dots> = (length ?a * 4) mod 2 ^ 64" by (simp add: uw)
    also have "\<dots> = length ?a * 4" using la by simp
    finally show ?thesis by simp
  qed
  obtain off1 terms1 where s: "write_entry (off, terms, post) e
       = (off1, terms1, post @ concat (map u32_bytes ?a))"
    by (simp add: write_entry_def Let_def final_postings_def[symmetric] bl length_concat_u32)
  have "\<forall>e \<in> set arr. length (te_postings e) < 2 ^ 32" using Cons.prems by simp
  from Cons.IH[OF this, of off1 terms1 "post @ concat (map u32_bytes ?a)"] s
  show ?case by (simp add: length_concat_u32)
qed

lemmas tok_defs =
  tokenize_line_def tokenize_loop.simps is_ascii_alnum_def is_ascii_alpha_def is_ascii_digit8_def
  is_cyr2_start_def is_tok_start_def flush_def lowercase_inplace_def lower_ascii_def
  bytes_of_def Let_def

lemma replicate_4: "replicate 4 x = [x, x, x, x]"
  by (simp add: eval_nat_numeral)

lemmas index_defs =
  index_token_def tt_get_or_add_def tt_init_def seen_init_def seen_reset_def fnv1a64_def
  seen_insert_def ptr_hash_def sample_addr_def bytes_of_def Let_def replicate_4

lemma sample_tokens_1:
  "tokenize_line (bytes_of ''Alpha, beta!'') = [bytes_of ''alpha'', bytes_of ''beta'']"
  by (simp add: tok_defs)

lemma sample_tokens_2:
  "tokenize_line (bytes_of ''beta '' @ [0xD0, 0x93, 0xD0, 0xB0, 0xD0, 0xBC, 0xD0, 0xBC, 0xD0, 0xB0])
    = [bytes_of ''beta'', [0xD0, 0xB3, 0xD0, 0xB0, 0xD0, 0xBC, 0xD0, 0xBC, 0xD0, 0xB0]]"
  by (simp add: tok_defs)

lemma sample_build_files: "build_files sample_listing 0 = take 2 sample_listing"
  by (simp add: build_files_def collect_text_files_def sample_listing_def path_extension_def
      path_stem_def path_filename_def Let_def)

lemma sample_build_table:
  "build_table 4 4 sample_addr (take 2 sample_listing) = (sample_table, sample_docs)"
  apply (simp add: build_table_def sample_listing_def index_file_def index_line_def
      sample_header_def sample_tokens_1 sample_tokens_2)
  apply (simp add: index_defs parse_header_def parse_header_line_def docid_defs
      sample_table_def sample_docs_def)
  done

lemma sample_sorted_entries: "sorted_entries sample_table = heap sample_table"
  by (simp add: sorted_entries_def table_entries_def sample_table_def bytes_of_def)

lemma sample_write_index:
  "write_index (heap sample_table) = (16, terms_tsv sample_files, postings_bin sample_files)"
  by (simp add: write_index_def write_entry_def sample_table_def sample_files_def bytes_of_def
      u32_bytes_def Let_def)

lemma sample_build: "build_index_with 4 4 sample_addr sample_listing 0 = Inr sample_files"
proof -
  have c: "collect_text_files sample_listing \<noteq> []"
    by (simp add: collect_text_files_def sample_listing_def path_extension_def
      path_stem_def path_filename_def Let_def)
  have n: "of_nat (length (table_entries sample_table)) = tt_size sample_table"
    by (simp add: table_entries_def sample_table_def)
  show ?thesis
    unfolding build_index_with_def sample_build_files sample_build_table
    using c n
    by (simp add: Let_def sample_sorted_entries sample_write_index sample_files_def)
qed

text \<open>
  Claim C1. When a build completes, every line \<open>(term, df, post_off, post_len)\<close> of
  \<^verbatim>\<open>terms.tsv\<close> has \<open>post_len = df * 4\<close>, its range lies inside \<^verbatim>\<open>postings.bin\<close>, and
  reading it gives \<open>df\<close> strictly ascending 32-bit values. The two size hypotheses say
  that the \<^verbatim>\<open>uint32_t\<close> length of a posting list and the \<^verbatim>\<open>uint64_t\<close> offset have not
  wrapped. The numbers of buckets and slots are arbitrary, so the statement covers
  \<open>build_index\<close>.
\<close>

theorem build_term_lines_wellformed:
  assumes b: "build_index_with nbuckets cap addr listing limit = Inr out"
    and n: "\<forall>e \<in> set (sorted_entries (fst (build_table nbuckets cap addr (build_files listing limit)))).
              length (te_postings e) < 2 ^ 32"
    and t: "length (postings_bin out) < 2 ^ 64"
    and l: "l \<in> set (terms_tsv out)"
  shows "unat (tl_post_len l) = unat (tl_df l) * 4
    \<and> unat (tl_post_off l) + unat (tl_post_len l) \<le> length (postings_bin out)
    \<and> sorted_wrt (<)
        (read_u32s (postings_bin out) (unat (tl_post_off l)) (unat (tl_post_len l))
          (unat (tl_df l)))
    \<and> length (read_u32s (postings_bin out) (unat (tl_post_off l)) (unat (tl_post_len l))
          (unat (tl_df l))) = unat (tl_df l)"
proof -
  let ?arr = "sorted_entries (fst (build_table nbuckets cap addr (build_files listing limit)))"
  from b have o: "terms_tsv out = fst (snd (write_index ?arr))"
      "postings_bin out = snd (snd (write_index ?arr))"
    by (auto simp: build_index_with_def Let_def split: if_splits)
  have len: "length (postings_bin out) = sum_list (map (\<lambda>e. 4 * length (final_postings e)) ?arr)"
    using write_length[OF n, of 0 "[]" "[]"] by (simp add: o(2) write_index_def)
  have "\<exists>off' terms' post'. foldl write_entry (0, [], []) ?arr = (off', terms', post')
     \<and> (\<forall>l \<in> set terms'. term_line_ok post' l)"
    by (rule write_fold) (use n t len in auto)
  then have "term_line_ok (postings_bin out) l"
    using l by (auto simp: o write_index_def)
  then show ?thesis unfolding term_line_ok_def by blast
qed

theorem build_term_lines_wellformed_witness:
  "build_index_with 4 4 sample_addr sample_listing 0 = Inr sample_files
    \<and> map (\<lambda>e. length (te_postings e))
          (sorted_entries (fst (build_table 4 4 sample_addr (build_files sample_listing 0))))
        = [1, 2, 1]
    \<and> length (postings_bin sample_files) = 16
    \<and> \<lparr> tl_term = bytes_of ''beta'', tl_df = 2, tl_post_off = 4, tl_post_len = 8 \<rparr>
          \<in> set (terms_tsv sample_files)
    \<and> read_u32s (postings_bin sample_files) 4 8 2 = [1, 30002]
    \<and> sorted_wrt (<) (read_u32s (postings_bin sample_files) 4 8 2)
    \<and> length (read_u32s (postings_bin sample_files) 4 8 2) = 2"
proof -
  have e: "sorted_entries (fst (build_table 4 4 sample_addr (build_files sample_listing 0)))
      = heap sample_table"
    unfolding sample_build_files sample_build_table fst_conv sample_sorted_entries ..
  have m: "map (\<lambda>e. length (te_postings e)) (heap sample_table) = [1, 2, 1]"
    by (simp add: sample_table_def)
  have n: "\<forall>e \<in> set (sorted_entries (fst (build_table 4 4 sample_addr (build_files sample_listing 0)))).
          length (te_postings e) < 2 ^ 32"
    unfolding e by (simp add: sample_table_def)
  have t: "length (postings_bin sample_files) = 16" by (simp add: sample_files_def)
  then have t': "length (postings_bin sample_files) < 2 ^ 64" by simp
  have l: "\<lparr> tl_term = bytes_of ''beta'', tl_df = 2, tl_post_off = 4, tl_post_len = 8 \<rparr>
          \<in> set (terms_tsv sample_files)" by (simp add: sample_files_def)
  have r: "read_u32s (postings_bin sample_files) 4 8 2 = [1, 30002]"
    by (simp add: sample_files_def read_u32s_def upt_conv_Cons)
  from build_term_lines_wellformed[OF sample_build n t' l] sample_build e m t l r
  show ?thesis by simp
qed

subsection \<open>The seen set of a document\<close>

text \<open>
  The slots taken in the seen set bound the postings of a document: every \<open>true\<close> of
  \<^verbatim>\<open>seen_insert\<close> takes a free slot, and the set has as many slots as \<^verbatim>\<open>seen_init\<close> gave it.
\<close>

lemma filled_le: "filled ss \<le> length ss"
  by (simp add: filled_def)

lemma filled_update:
  assumes "k < length ss" "ss ! k = None"
  shows "filled (ss[k := Some e]) = filled ss + 1"
proof -
  have s: "ss = take k ss @ None # drop (Suc k) ss"
    using assms by (metis id_take_nth_drop)
  have "ss[k := Some e] = take k ss @ Some e # drop (Suc k) ss"
    using assms(1) by (simp add: upd_conv_take_nth_drop)
  then have "filled (ss[k := Some e]) = filled (take k ss) + 1 + filled (drop (Suc k) ss)"
    by (simp add: filled_def)
  moreover have "filled ss = filled (take k ss) + filled (drop (Suc k) ss)"
    by (subst s) (simp add: filled_def)
  ultimately show ?thesis by simp
qed

lemma and_mask_bound:
  assumes "0 < n" "n < 2 ^ 32"
  shows "unat ((x::u32) AND (of_nat n - 1)) < n"
proof -
  have m: "unat (of_nat n - 1 :: u32) = n - 1"
    using assms by (simp add: unat_sub unat_of_nat word_le_nat_alt)
  have "x AND (of_nat n - 1) \<le> of_nat n - 1" by (rule word_and_le1)
  then have "unat (x AND (of_nat n - 1)) \<le> n - 1" by (simp add: word_le_nat_alt m)
  with assms(1) show ?thesis by simp
qed

lemma seen_probe_count:
  assumes "0 < length ss" "length ss < 2 ^ 32" "msk = of_nat (length ss) - 1" "unat i < length ss"
    and "seen_probe ss msk e i steps = (ss', fresh)"
  shows "length ss' = length ss \<and> (if fresh then filled ss' = filled ss + 1 else ss' = ss)"
  using assms(4,5)
proof (induction steps arbitrary: i)
  case 0
  then show ?case by simp
next
  case (Suc steps)
  show ?case
  proof (cases "ss ! unat i")
    case None
    with Suc.prems(2) have "ss' = ss[unat i := Some e]" "fresh" by simp_all
    with filled_update[OF Suc.prems(1) None] show ?thesis by simp
  next
    case (Some cur)
    show ?thesis
    proof (cases "cur = e")
      case True
      with Some Suc.prems(2) show ?thesis by simp
    next
      case False
      have "unat ((i + 1) AND msk) < length ss"
        unfolding assms(3) using assms(1,2) by (rule and_mask_bound)
      moreover from Some False Suc.prems(2) have "seen_probe ss msk e ((i + 1) AND msk) steps = (ss', fresh)"
        by simp
      ultimately show ?thesis by (rule Suc.IH)
    qed
  qed
qed

lemma seen_insert_count:
  assumes "0 < length ss" "length ss < 2 ^ 32" "seen_insert addr ss e = (ss', fresh)"
  shows "length ss' = length ss \<and> (if fresh then filled ss' = filled ss + 1 else ss' = ss)"
proof -
  let ?msk = "of_nat (length ss) - 1 :: u32"
  let ?i = "ucast (ptr_hash (addr e)) AND ?msk"
  have "unat ?i < length ss" using assms(1,2) by (rule and_mask_bound)
  moreover have "seen_probe ss ?msk e ?i (length ss) = (ss', fresh)"
    using assms(3) by (simp add: seen_insert_def Let_def)
  ultimately show ?thesis using seen_probe_count[OF assms(1,2) refl] by blast
qed

lemma seen_probe_length: "length (fst (seen_probe ss msk e i steps)) = length ss"
  by (induction steps arbitrary: i) (auto split: option.splits)

lemma seen_insert_length: "length (fst (seen_insert addr ss e)) = length ss"
  by (simp add: seen_insert_def Let_def seen_probe_length)

lemma tt_get_or_add_pushes: "tt_get_or_add tt t = (tt', e) \<Longrightarrow> pushes did tt' = pushes did tt"
  by (auto simp: tt_get_or_add_def Let_def pushes_def split: option.splits)

lemma pushes_update:
  "pushes did (tt\<lparr> heap := (heap tt)[e := (heap tt ! e)\<lparr> te_df := d, te_postings := te_postings (heap tt ! e) @ [x] \<rparr>] \<rparr>)
    = (if e < length (heap tt) \<and> x = did then pushes did tt + 1 else pushes did tt)"
proof (cases "e < length (heap tt)")
  case False
  then show ?thesis by (simp add: pushes_def list_update_beyond)
next
  case True
  let ?h = "heap tt"
  let ?c = "\<lambda>e. count_list (te_postings e) did"
  have s: "?h = take e ?h @ ?h ! e # drop (Suc e) ?h" using True by (metis id_take_nth_drop)
  have "sum_list (map ?c ?h)
      = sum_list (map ?c (take e ?h)) + ?c (?h ! e) + sum_list (map ?c (drop (Suc e) ?h))"
    by (subst s) simp
  then show ?thesis using True by (simp add: pushes_def upd_conv_take_nth_drop)
qed

lemma index_token_length: "length (snd (index_token addr d st tok)) = length (snd st)"
proof (cases "tok = []")
  case True
  then show ?thesis by (simp add: index_token_def)
next
  case False
  obtain tt1 e where g: "tt_get_or_add (fst st) tok = (tt1, e)" by (cases "tt_get_or_add (fst st) tok")
  obtain ss1 fresh where s: "seen_insert addr (snd st) e = (ss1, fresh)"
    by (cases "seen_insert addr (snd st) e")
  from seen_insert_length[of addr "snd st" e] s have "length ss1 = length (snd st)" by simp
  with False g s show ?thesis by (simp add: index_token_def)
qed

lemma index_token_other:
  assumes "d \<noteq> did"
  shows "pushes did (fst (index_token addr d st tok)) = pushes did (fst st)"
proof (cases "tok = []")
  case True
  then show ?thesis by (simp add: index_token_def)
next
  case False
  obtain tt1 e where g: "tt_get_or_add (fst st) tok = (tt1, e)" by (cases "tt_get_or_add (fst st) tok")
  obtain ss1 fresh where s: "seen_insert addr (snd st) e = (ss1, fresh)"
    by (cases "seen_insert addr (snd st) e")
  have p: "pushes did tt1 = pushes did (fst st)" using g by (rule tt_get_or_add_pushes)
  from False g s p assms show ?thesis by (simp add: index_token_def pushes_update)
qed

lemma index_token_inv:
  assumes "0 < length ss" "length ss < 2 ^ 32" "pushes did tt \<le> filled ss"
    and "index_token addr did (tt, ss) tok = (tt', ss')"
  shows "length ss' = length ss \<and> pushes did tt' \<le> filled ss'"
proof (cases "tok = []")
  case True
  with assms show ?thesis by (simp add: index_token_def)
next
  case False
  obtain tt1 e where g: "tt_get_or_add tt tok = (tt1, e)" by (cases "tt_get_or_add tt tok")
  obtain ss1 fresh where s: "seen_insert addr ss e = (ss1, fresh)" by (cases "seen_insert addr ss e")
  from seen_insert_count[OF assms(1,2) s]
  have c: "length ss1 = length ss" "if fresh then filled ss1 = filled ss + 1 else ss1 = ss" by simp_all
  have p: "pushes did tt1 = pushes did tt" using g by (rule tt_get_or_add_pushes)
  show ?thesis
  proof (cases fresh)
    case True
    with assms(4) False g s have "ss' = ss1"
      "tt' = tt1\<lparr> heap := (heap tt1)[e := (heap tt1 ! e)\<lparr> te_df := te_df (heap tt1 ! e) + 1,
            te_postings := te_postings (heap tt1 ! e) @ [did] \<rparr>] \<rparr>"
      by (simp_all add: index_token_def)
    with p c True assms(3) show ?thesis by (simp add: pushes_update)
  next
    case False
    with assms(4) \<open>tok \<noteq> []\<close> g s have "ss' = ss1" "tt' = tt1" by (simp_all add: index_token_def)
    with p c False assms(3) show ?thesis by simp
  qed
qed

lemma index_tokens_inv:
  assumes "0 < length ss" "length ss < 2 ^ 32" "pushes did tt \<le> filled ss"
  shows "pushes did (fst (foldl (index_token addr did) (tt, ss) toks)) \<le> length ss"
  using assms
proof (induction toks arbitrary: tt ss)
  case Nil
  then show ?case using filled_le[of ss] by simp
next
  case (Cons tok toks)
  obtain tt' ss' where s: "index_token addr did (tt, ss) tok = (tt', ss')"
    by (cases "index_token addr did (tt, ss) tok")
  from index_token_inv[OF Cons.prems s] have i: "length ss' = length ss" "pushes did tt' \<le> filled ss'"
    by simp_all
  from Cons.IH[of ss' tt'] Cons.prems i s show ?case by simp
qed

lemma index_tokens_other:
  assumes "d \<noteq> did"
  shows "pushes did (fst (foldl (index_token addr d) st toks)) = pushes did (fst st)"
  by (induction toks arbitrary: st) (simp_all add: index_token_other[OF assms])

lemma index_tokens_length: "length (snd (foldl (index_token addr d) st toks)) = length (snd st)"
  by (induction toks arbitrary: st) (simp_all add: index_token_length)

lemma index_lines_tokens:
  "foldl (index_line addr d) st lines = foldl (index_token addr d) st (concat (map tokenize_line lines))"
  by (induction lines arbitrary: st) (simp_all add: index_line_def)

lemma index_file_tokens:
  "fst (index_file addr st f) =
    (case content f of None \<Rightarrow> fst st
     | Some lines \<Rightarrow> foldl (index_token addr (doc_docid (path f)))
         (fst (fst st), seen_reset (snd (fst st))) (doc_tokens lines))"
  by (simp add: index_file_def Let_def index_lines_tokens doc_tokens_def split: option.splits)

lemma filled_reset: "filled (seen_reset ss) = 0"
  by (simp add: filled_def seen_reset_def)

lemma index_file_length: "length (snd (fst (index_file addr st f))) = length (snd (fst st))"
  by (simp add: index_file_tokens index_tokens_length seen_reset_def split: option.splits)

lemma index_file_other:
  assumes "doc_docid (path f) \<noteq> did"
  shows "pushes did (fst (fst (index_file addr st f))) = pushes did (fst (fst st))"
  by (simp add: index_file_tokens index_tokens_other[OF assms] split: option.splits)

lemma index_file_bound:
  assumes "content f = Some lines" "0 < length (snd (fst st))" "length (snd (fst st)) < 2 ^ 32"
    and "pushes (doc_docid (path f)) (fst (fst st)) = 0"
  shows "pushes (doc_docid (path f)) (fst (fst (index_file addr st f))) \<le> length (snd (fst st))"
proof -
  let ?ss = "seen_reset (snd (fst st))"
  have l: "length ?ss = length (snd (fst st))" by (simp add: seen_reset_def)
  have "pushes (doc_docid (path f)) (fst (foldl (index_token addr (doc_docid (path f)))
          (fst (fst st), ?ss) (doc_tokens lines))) \<le> length ?ss"
    by (rule index_tokens_inv) (use assms l in \<open>simp_all add: filled_reset\<close>)
  with assms(1) l show ?thesis by (simp add: index_file_tokens)
qed

lemma index_files_length:
  "length (snd (fst (foldl (index_file addr) st files))) = length (snd (fst st))"
  by (induction files arbitrary: st) (simp_all add: index_file_length)

lemma index_files_other:
  assumes "\<forall>g \<in> set files. doc_docid (path g) \<noteq> did"
  shows "pushes did (fst (fst (foldl (index_file addr) st files))) = pushes did (fst (fst st))"
  using assms by (induction files arbitrary: st) (simp_all add: index_file_other)

lemma build_table_bound:
  assumes "content f = Some lines" "0 < cap" "cap < 2 ^ 32"
    and "\<forall>g \<in> set pre \<union> set post. doc_docid (path g) \<noteq> doc_docid (path f)"
  shows "pushes (doc_docid (path f)) (fst (build_table nb cap addr (pre @ f # post))) \<le> cap"
proof -
  let ?did = "doc_docid (path f)"
  let ?s0 = "((tt_init nb, seen_init cap), []) :: (TermTable \<times> nat option list) \<times> DocLine list"
  let ?s1 = "foldl (index_file addr) ?s0 pre"
  let ?s2 = "index_file addr ?s1 f"
  let ?s3 = "foldl (index_file addr) ?s2 post"
  have l1: "length (snd (fst ?s1)) = cap" by (simp add: index_files_length seen_init_def)
  have "pushes ?did (fst (fst ?s1)) = pushes ?did (fst (fst ?s0))"
    by (rule index_files_other) (use assms(4) in simp)
  then have p1: "pushes ?did (fst (fst ?s1)) = 0" by (simp add: pushes_def tt_init_def)
  have p2: "pushes ?did (fst (fst ?s2)) \<le> cap"
    using index_file_bound[OF assms(1), of ?s1 addr] l1 p1 assms(2,3) by simp
  have "pushes ?did (fst (fst ?s3)) = pushes ?did (fst (fst ?s2))"
    by (rule index_files_other) (use assms(4) in simp)
  with p2 show ?thesis by (simp add: build_table_def Let_def)
qed

lemma filter_le_sum: "(\<And>x. P x \<Longrightarrow> 1 \<le> c x) \<Longrightarrow> length (filter P xs) \<le> sum_list (map c xs)"
proof (induction xs)
  case Nil
  then show ?case by simp
next
  case (Cons a xs)
  then have "length (filter P xs) \<le> sum_list (map c xs)" by simp
  moreover have "P a \<Longrightarrow> 1 \<le> c a" by (rule Cons.prems)
  ultimately show ?case by (cases "P a") (simp_all add: le_Suc_eq add.commute add_mono)
qed

lemma posted_card:
  assumes "finite T"
    and "\<forall>tok \<in> T. \<exists>e \<in> set (heap tt). te_term e = tok \<and> did \<in> set (te_postings e)"
  shows "card T \<le> pushes did tt"
proof -
  let ?P = "\<lambda>e. did \<in> set (te_postings e)"
  have "T \<subseteq> te_term ` set (filter ?P (heap tt))" using assms(2) by force
  then have "card T \<le> card (te_term ` set (filter ?P (heap tt)))" by (simp add: card_mono)
  also have "\<dots> \<le> card (set (filter ?P (heap tt)))" by (simp add: card_image_le)
  also have "\<dots> \<le> length (filter ?P (heap tt))" by (rule card_length)
  also have "\<dots> \<le> pushes did tt"
    unfolding pushes_def by (rule filter_le_sum) (metis count_list_0_iff Suc_leI One_nat_def not_gr_zero)
  finally show ?thesis .
qed

lemma replicate_2: "replicate 2 x = [x, x]"
  by (simp add: eval_nat_numeral)

lemma overflow_tokens:
  "doc_tokens (sample_header @ [bytes_of ''a b c'']) = [bytes_of ''a'', bytes_of ''b'', bytes_of ''c'']"
  by (simp add: doc_tokens_def sample_header_def tok_defs)

lemma overflow_first_tokens:
  "doc_tokens (sample_header @ [bytes_of ''Alpha, beta!'']) = [bytes_of ''alpha'', bytes_of ''beta'']"
  by (simp add: doc_tokens_def sample_header_def tok_defs)

lemma overflow_docids: "map (\<lambda>g. doc_docid (path g)) overflow_listing = [1, 7]"
  by (simp add: overflow_listing_def overflow_file_def docid_defs)

lemma overflow_build: "fst (build_table 4 2 sample_addr overflow_listing) = overflow_table"
  apply (simp add: build_table_def overflow_listing_def overflow_file_def index_file_tokens
      overflow_tokens overflow_first_tokens)
  apply (simp add: index_defs replicate_2 docid_defs overflow_table_def)
  done

text \<open>
  Claim C3, against the code. The claim has every term of a document receive the docid of
  the document. The code does not when the document overflows the seen set: if a document
  has more distinct non-empty tokens than the seen set has slots, and no other file of the
  corpus has its docid, then one of its tokens ends the build with no entry of the table
  that holds the docid, in the list \<^verbatim>\<open>pl_push\<close> appends to or in the list written.
  \<^verbatim>\<open>seen_insert\<close> answers \<^verbatim>\<open>false\<close> for a new entry once every slot is taken, and the docid
  is not appended. \<^verbatim>\<open>build_index\<close> gives the seen set \<open>2^15\<close> slots.
\<close>

theorem build_seen_overflow:
  assumes "content f = Some lines" "0 < cap" "cap < 2 ^ 32"
    and "\<forall>g \<in> set pre \<union> set post. doc_docid (path g) \<noteq> doc_docid (path f)"
    and "cap < card (set (doc_tokens lines) - {[]})"
  shows "\<exists>tok \<in> set (doc_tokens lines). tok \<noteq> [] \<and>
          (\<forall>e \<in> set (heap (fst (build_table nb cap addr (pre @ f # post)))).
             te_term e = tok \<longrightarrow>
               doc_docid (path f) \<notin> set (te_postings e) \<and> doc_docid (path f) \<notin> set (final_postings e))"
proof (rule ccontr)
  let ?tt = "fst (build_table nb cap addr (pre @ f # post))"
  let ?did = "doc_docid (path f)"
  let ?T = "set (doc_tokens lines) - {[]}"
  assume "\<not> ?thesis"
  then have "\<forall>tok \<in> ?T. \<exists>e \<in> set (heap ?tt). te_term e = tok \<and> ?did \<in> set (te_postings e)"
    by (auto simp: final_postings_def unique_sort_set)
  then have "card ?T \<le> pushes ?did ?tt" by (rule posted_card[rotated]) simp
  also have "\<dots> \<le> cap" using assms(1-4) by (rule build_table_bound)
  finally show False using assms(5) by simp
qed

theorem build_seen_overflow_witness:
  "content overflow_file = Some (sample_header @ [bytes_of ''a b c''])
    \<and> (0::nat) < 2 \<and> (2::nat) < 2 ^ 32
    \<and> overflow_listing = [hd overflow_listing] @ overflow_file # []
    \<and> map (\<lambda>g. doc_docid (path g)) overflow_listing = [1, 7]
    \<and> card (set (doc_tokens (sample_header @ [bytes_of ''a b c''])) - {[]}) = 3
    \<and> fst (build_table 4 2 sample_addr overflow_listing) = overflow_table
    \<and> map te_term (heap overflow_table) ! 4 = bytes_of ''c''
    \<and> map te_postings (heap overflow_table) ! 4 = []"
proof -
  have c: "content overflow_file = Some (sample_header @ [bytes_of ''a b c''])"
    by (simp add: overflow_file_def)
  have l: "overflow_listing = [hd overflow_listing] @ overflow_file # []"
    by (simp add: overflow_listing_def)
  have d: "\<forall>g \<in> set [hd overflow_listing] \<union> set []. doc_docid (path g) \<noteq> doc_docid (path overflow_file)"
    using overflow_docids by (simp add: overflow_listing_def)
  have k: "card (set (doc_tokens (sample_header @ [bytes_of ''a b c''])) - {[]}) = 3"
    unfolding overflow_tokens by (simp add: bytes_of_def)
  have t: "map te_term (heap overflow_table) ! 4 = bytes_of ''c''"
    "map te_postings (heap overflow_table) ! 4 = []"
    by (simp_all add: overflow_table_def)
  from build_seen_overflow[OF c _ _ d, of 2 4 sample_addr] c l overflow_docids k overflow_build t
  show ?thesis by simp
qed

subsection \<open>Case folding and the lookup command\<close>

lemma lower_cyr2_other: "b0 \<noteq> 0xD0 \<Longrightarrow> lower_cyr2 (b0 # xs) = b0 # lower_cyr2 xs"
  by (cases xs) auto

lemma byte_sub_20: "(0xB0::byte) \<le> b \<Longrightarrow> b \<le> 0xBF \<Longrightarrow> 0x90 \<le> b - 0x20 \<and> b - 0x20 \<le> 0x9F \<and> (b - 0x20) + 0x20 = b \<and> b \<noteq> 0xD0"
  by unat_arith
lemma byte_add_20:
  assumes "(0x80::byte) \<le> b" "b \<le> 0x8F"
  shows "\<not> (0x90 \<le> b + 0x20 \<and> b + 0x20 \<le> 0x9F) \<and> 0xA0 \<le> b + 0x20 \<and> b + 0x20 \<le> 0xAF \<and> (b + 0x20) - 0x20 = b \<and> b \<noteq> 0xD0"
proof -
  have u: "128 \<le> unat b" "unat b \<le> 143" using assms by (simp_all add: word_le_nat_alt)
  have p: "unat (b + 0x20) = unat b + 32" using u by (simp add: unat_word_ariths)
  have "b \<noteq> 0xD0" using u by auto
  then show ?thesis using u by (simp add: word_le_nat_alt p)
qed
lemma byte_sub_32: "(0x61::byte) \<le> b \<Longrightarrow> b \<le> 0x7A \<Longrightarrow> 0x41 \<le> b - 32 \<and> b - 32 \<le> 0x5A \<and> (b - 32) + 32 = b"
  by unat_arith
lemma lt_not_lead: "(b::byte) < 0x80 \<Longrightarrow> b \<noteq> 0xD0" by unat_arith
lemma le_bf_not_lead: "(b::byte) \<le> 0xBF \<Longrightarrow> b \<noteq> 0xD0" by unat_arith
lemma lower_ascii_cont: "(0x80::byte) \<le> b \<Longrightarrow> lower_ascii b = b"
  unfolding lower_ascii_def by (auto, unat_arith)
lemma spelling_lowercase: "spelling_of s t \<Longrightarrow> lower_cyr2 (map lower_ascii s) = t"
proof (induction s t rule: spelling_of.induct)
  case 1
  then show ?case by simp
next
  case (2 a s b t)
  show ?case
  proof (cases "b < 0x80")
    case True
    with "2.prems" have nu: "\<not> (0x41 \<le> b \<and> b \<le> 0x5A)"
      and ab: "a = b \<or> (0x61 \<le> b \<and> b \<le> 0x7A \<and> a = b - 32)"
      and st: "spelling_of s t" by auto
    have la: "lower_ascii a = b"
    proof (cases "a = b")
      case True
      with nu show ?thesis by (simp add: lower_ascii_def)
    next
      case False
      with ab have r: "0x61 \<le> b" "b \<le> 0x7A" "a = b - 32" by auto
      from byte_sub_32[OF r(1,2)] r(3) show ?thesis by (simp add: lower_ascii_def)
    qed
    have "lower_cyr2 (map lower_ascii s) = t" using "2.IH"(1)[OF True st] .
    then show ?thesis using la lt_not_lead[OF True] by (simp add: lower_cyr2_other)
  next
    case False
    with "2.prems" obtain a1 s' b1 t' where s: "s = a1 # s'" and t: "t = b1 # t'"
      and lp: "lower_pair b b1"
      and v: "(a, a1) = (b, b1) \<or> cyr_upper_of (b, b1) = Some (a, a1)"
      and st: "spelling_of s' t'"
      by (auto split: list.splits)
    have ih: "lower_cyr2 (map lower_ascii s') = t'" using "2.IH"(2)[OF False s t st] .
    from lp have b1r: "0x80 \<le> b1" "b1 \<le> 0xBF" and bl: "b = 0xD0 \<or> b = 0xD1"
      by (auto simp: lower_pair_def)
    have b1n: "b1 \<noteq> 0xD0" using b1r(2) by (rule le_bf_not_lead)
    have l0: "lower_ascii 0xD0 = 0xD0" "lower_ascii 0xD1 = 0xD1" by (simp_all add: lower_ascii_def)
    show ?thesis
    proof (cases "(a, a1) = (b, b1)")
      case True
      then have e: "a = b" "a1 = b1" by auto
      have l1: "lower_ascii b = b" using bl l0 by auto
      have l2: "lower_ascii b1 = b1" using b1r(1) by (rule lower_ascii_cont)
      have m: "map lower_ascii (a # s) = b # b1 # map lower_ascii s'"
        by (simp only: s e list.map l1 l2)
      have c: "lower_cyr2 (b # b1 # map lower_ascii s') = b # b1 # lower_cyr2 (map lower_ascii s')"
      proof (cases "b = 0xD0")
        case False
        then show ?thesis using b1n by (simp add: lower_cyr2_other)
      next
        case True
        with lp have n: "\<not> (0x90 \<le> b1 \<and> b1 \<le> 0xAF)" "b1 \<noteq> 0x81"
          by (auto simp: lower_pair_def)
        from n(1) have "\<not> (0x90 \<le> b1 \<and> b1 \<le> 0x9F)" "\<not> (0xA0 \<le> b1 \<and> b1 \<le> 0xAF)"
          by (auto simp: word_le_nat_alt)
        with n(2) True b1n show ?thesis by (auto simp: lower_cyr2_other)
      qed
      show ?thesis by (simp only: m c ih t)
    next
      case False
      with v have up: "cyr_upper_of (b, b1) = Some (a, a1)" by blast
      then consider (x) "b = 0xD0" "0xB0 \<le> b1" "b1 \<le> 0xBF" "a = 0xD0" "a1 = b1 - 0x20"
        | (y) "b = 0xD1" "0x80 \<le> b1" "b1 \<le> 0x8F" "a = 0xD0" "a1 = b1 + 0x20"
        | (z) "b = 0xD1" "b1 = 0x91" "a = 0xD0" "a1 = 0x81"
        by (auto simp: cyr_upper_of_def split: if_splits)
      then show ?thesis
      proof cases
        case x
        from byte_sub_20[OF x(2,3)] have r: "0x90 \<le> a1" "a1 \<le> 0x9F" "a1 + 0x20 = b1"
          by (simp_all add: x(5))
        have "0x80 \<le> a1" using r(1) by unat_arith
        then have l2: "lower_ascii a1 = a1" by (rule lower_ascii_cont)
        have m: "map lower_ascii (a # s) = 0xD0 # a1 # map lower_ascii s'"
          by (simp only: s x(4) list.map l0 l2)
        have c: "lower_cyr2 (0xD0 # a1 # map lower_ascii s') = b # b1 # lower_cyr2 (map lower_ascii s')"
          using r b1n x(1) by (simp add: lower_cyr2_other)
        show ?thesis by (simp only: m c ih t)
      next
        case y
        from byte_add_20[OF y(2,3)] have r: "\<not> (0x90 \<le> a1 \<and> a1 \<le> 0x9F)" "0xA0 \<le> a1" "a1 \<le> 0xAF" "a1 - 0x20 = b1"
          by (simp_all add: y(5))
        have "0x80 \<le> a1" using r(2) by unat_arith
        then have l2: "lower_ascii a1 = a1" by (rule lower_ascii_cont)
        have m: "map lower_ascii (a # s) = 0xD0 # a1 # map lower_ascii s'"
          by (simp only: s y(4) list.map l0 l2)
        have c: "lower_cyr2 (0xD0 # a1 # map lower_ascii s') = b # b1 # lower_cyr2 (map lower_ascii s')"
          using r b1n y(1) by (simp add: lower_cyr2_other)
        show ?thesis by (simp only: m c ih t)
      next
        case z
        have l2: "lower_ascii 0x81 = 0x81" by (simp add: lower_ascii_def)
        have m: "map lower_ascii (a # s) = 0xD0 # 0x81 # map lower_ascii s'"
          by (simp only: s z list.map l0 l2)
        have c: "lower_cyr2 (0xD0 # 0x81 # map lower_ascii s') = b # b1 # lower_cyr2 (map lower_ascii s')"
          by (simp add: lower_cyr2_other z)
        show ?thesis by (simp only: m c ih t)
      qed
    qed
  qed
qed simp_all

lemma spelling_refl: "spelling_of s t \<Longrightarrow> spelling_of t t"
  by (induction s t rule: spelling_of.induct) (auto split: list.splits if_splits)

lemma spelling_empty: "spelling_of s t \<Longrightarrow> s = [] \<longleftrightarrow> t = []"
  by (cases s; cases t) auto

text \<open>
  Claim C10, as the code has it. \<^verbatim>\<open>lookup\<close> folds its \<^verbatim>\<open>--term\<close> argument before it
  searches: when \<open>s\<close> spells the lower-case term \<open>t\<close> with some of the letters of the fold
  in upper case (ASCII \<open>A..Z\<close>, Cyrillic \<open>U+0410..U+042F\<close> and \<open>U+0401\<close>), the fold takes
  \<open>s\<close> to \<open>t\<close>, leaves \<open>t\<close> as it is, and the command prints for \<open>s\<close> what it prints for
  \<open>t\<close>, whatever the index files are.
\<close>

theorem lookup_folds_term:
  assumes "spelling_of s t"
  shows "lowercase_inplace s = t \<and> lowercase_inplace t = t
    \<and> main_lookup terms_file postings_file s = main_lookup terms_file postings_file t"
proof -
  have a: "lowercase_inplace s = t"
    using assms by (simp add: lowercase_inplace_def spelling_lowercase)
  have b: "lowercase_inplace t = t"
    using spelling_refl[OF assms] by (simp add: lowercase_inplace_def spelling_lowercase)
  from a b spelling_empty[OF assms] show ?thesis by (simp add: main_lookup_def)
qed

theorem lookup_folds_term_witness:
  "spelling_of (bytes_of ''BeTa'') (bytes_of ''beta'')
    \<and> main_lookup (Some sample_terms_tsv) (Some sample_postings_bin) (bytes_of ''BeTa'')
        = Inr (Found (bytes_of ''beta'') 2 [1, 30002])
    \<and> main_lookup (Some sample_terms_tsv) (Some sample_postings_bin) (bytes_of ''beta'')
        = Inr (Found (bytes_of ''beta'') 2 [1, 30002])"
proof -
  have s: "spelling_of (bytes_of ''BeTa'') (bytes_of ''beta'')"
    by (simp add: bytes_of_def)
  have l: "main_lookup (Some sample_terms_tsv) (Some sample_postings_bin) (bytes_of ''beta'')
        = Inr (Found (bytes_of ''beta'') 2 [1, 30002])"
    by (simp add: main_lookup_def lookup_term_def sample_terms_tsv_def lowercase_inplace_def
        lower_ascii_def find_from_def substr_def strtoull_def is_space_c_def is_digit_b_def
        Let_def bytes_of_def sample_read_beta)
  from lookup_folds_term[OF s, of "Some sample_terms_tsv" "Some sample_postings_bin"] s l
  show ?thesis by simp
qed

text \<open>
  C10 as stated fails for a capital outside the fold. The tokenizer of the builder stores
  the letter \<open>U+0456\<close> as the term \<open>D1 96\<close>; the fold leaves its capital \<open>U+0406\<close>, the
  bytes \<open>D0 86\<close>, as it is, and \<^verbatim>\<open>lookup\<close> finds the term under the lower-case spelling
  and not under the capital.
\<close>

theorem lookup_folds_term_counterexample:
  "tokenize_line [0xD1, 0x96] = [[0xD1, 0x96]]
    \<and> lowercase_inplace [0xD1, 0x96] = [0xD1, 0x96]
    \<and> lowercase_inplace [0xD0, 0x86] = [0xD0, 0x86]
    \<and> main_lookup (Some unfolded_terms_tsv) (Some [1, 0, 0, 0]) [0xD1, 0x96]
        = Inr (Found [0xD1, 0x96] 1 [1])
    \<and> main_lookup (Some unfolded_terms_tsv) (Some [1, 0, 0, 0]) [0xD0, 0x86] = Inr NotFound"
  by (simp add: tok_defs main_lookup_def lookup_term_def unfolded_terms_tsv_def
      find_from_def substr_def strtoull_def is_space_c_def is_digit_b_def
      read_u32s_def upt_conv_Cons)

subsection \<open>The two tokenizers\<close>

lemma tokenize_cp_sample:
  "tokenize_line_cp (bytes_of ''a'1'') = [bytes_of ''a'', bytes_of ''1'']"
  by (simp add: tokenize_line_cp_def tokenize_cp_loop.simps decode_utf8_next_def bytes_of_def
      is_alnum_def is_letter_def is_ascii_digit_def is_cyr_lower_def is_cyr_upper_def
      is_greek_def is_hyphen_def is_apostrophe_def is_ascii_upper_def
      append_utf8_def to_lower_cp_def flush_tok_def)

lemma tokenize_sample: "tokenize_line (bytes_of ''a'1'') = [bytes_of ''a'1'']"
  by (simp add: tok_defs)

declare tokenize_loop.simps [simp del] tokenize_cp_loop.simps [simp del]

lemma unat_ucast_byte: "unat (ucast (c::byte) :: u32) = unat c"
proof -
  have "unat c < 2 ^ 8" using unsigned_less[of c] by simp
  then have "unat c < 2 ^ 32" by simp
  then show ?thesis by (simp add: unsigned_ucast_eq take_bit_nat_eq_self)
qed

lemma ucast_back: "(ucast (ucast (c::byte) :: u32) :: byte) = c"
  by (rule ucast_up_ucast_id) (simp add: is_up)

lemma ascii_cp_le: "(ucast (c::byte) :: u32) \<le> numeral n \<longleftrightarrow> unat c \<le> unat (numeral n :: u32)"
  by (simp only: word_le_nat_alt unat_ucast_byte)
lemma ascii_cp_ge: "numeral n \<le> (ucast (c::byte) :: u32) \<longleftrightarrow> unat (numeral n :: u32) \<le> unat c"
  by (simp only: word_le_nat_alt unat_ucast_byte)
lemma ascii_cp_eq: "(ucast (c::byte) :: u32) = numeral n \<longleftrightarrow> unat c = unat (numeral n :: u32)"
  by (metis unat_ucast_byte word_unat_eq_iff)
lemma byte_le: "(c::byte) \<le> numeral n \<longleftrightarrow> unat c \<le> unat (numeral n :: byte)"
  by (simp only: word_le_nat_alt)
lemma byte_ge: "numeral n \<le> (c::byte) \<longleftrightarrow> unat (numeral n :: byte) \<le> unat c"
  by (simp only: word_le_nat_alt)
lemma byte_lt: "(c::byte) < numeral n \<longleftrightarrow> unat c < unat (numeral n :: byte)"
  by (simp only: word_less_nat_alt)
lemma byte_eq: "(c::byte) = numeral n \<longleftrightarrow> unat c = unat (numeral n :: byte)"
  by (simp only: word_unat_eq_iff)

lemmas cmp_nat = ascii_cp_le ascii_cp_ge ascii_cp_eq byte_le byte_ge byte_lt byte_eq

lemmas class_defs = is_alnum_def is_letter_def is_ascii_digit_def is_cyr_lower_def is_cyr_upper_def
  is_greek_def is_ascii_alnum_def is_ascii_alpha_def is_ascii_digit8_def is_hyphen_def is_apostrophe_def
  is_ascii_upper_def

lemma ascii_alnum: "(c::byte) < 0x80 \<Longrightarrow> is_alnum (ucast c) \<longleftrightarrow> is_ascii_alnum c"
  by (auto simp: class_defs cmp_nat)

lemma ascii_digit: "is_ascii_digit (ucast c) \<longleftrightarrow> is_ascii_digit8 c"
  by (auto simp: class_defs cmp_nat)

lemma ascii_letter: "(c::byte) < 0x80 \<Longrightarrow> is_letter (ucast c) \<longleftrightarrow> is_ascii_alpha c"
  by (auto simp: class_defs cmp_nat)

lemma ascii_hyphen: "(c::byte) < 0x80 \<Longrightarrow> is_hyphen (ucast c) \<longleftrightarrow> c = 0x2D"
  by (auto simp: class_defs cmp_nat)

lemma ascii_apostrophe: "(c::byte) < 0x80 \<Longrightarrow> is_apostrophe (ucast c) \<longleftrightarrow> c = 0x27"
  by (auto simp: class_defs cmp_nat)

lemma ascii_plus: "(ucast (c::byte) :: u32) = 0x2B \<longleftrightarrow> c = 0x2B"
  by (auto simp: cmp_nat)
lemma ascii_dot: "(ucast (c::byte) :: u32) = 0x2E \<longleftrightarrow> c = 0x2E"
  by (auto simp: cmp_nat)

lemma ascii_append: "(c::byte) < 0x80 \<Longrightarrow> append_utf8 (ucast c) = [c]"
  by (auto simp: append_utf8_def ucast_back cmp_nat)

lemma ascii_lower:
  assumes "(c::byte) < 0x80"
  shows "to_lower_cp (ucast c) = ucast (lower_ascii c)"
proof (cases "0x41 \<le> c \<and> c \<le> 0x5A")
  case True
  then have u: "65 \<le> unat c" "unat c \<le> 90" by (simp_all add: cmp_nat)
  have 1: "unat (c + 32) = unat c + 32" using u by (simp add: unat_word_ariths)
  have 2: "unat (ucast c + 32 :: u32) = unat c + 32"
    using u by (simp add: unat_word_ariths unat_ucast_byte)
  have "(ucast c + 32 :: u32) = ucast (c + 32)"
    by (simp only: word_unat_eq_iff 1 2 unat_ucast_byte)
  moreover have "is_ascii_upper (ucast c)" using u by (simp add: is_ascii_upper_def cmp_nat)
  ultimately show ?thesis using True by (simp add: to_lower_cp_def lower_ascii_def)
next
  case False
  then have "\<not> is_ascii_upper (ucast c)" by (auto simp: is_ascii_upper_def cmp_nat)
  moreover have "\<not> (0x0410 \<le> (ucast c :: u32) \<and> (ucast c :: u32) \<le> 0x042F)" "(ucast c :: u32) \<noteq> 0x0401"
    using assms by (auto simp: cmp_nat)
  ultimately show ?thesis using False by (auto simp: to_lower_cp_def lower_ascii_def)
qed

lemma decode_ascii:
  "i < length line \<Longrightarrow> line ! i < 0x80 \<Longrightarrow> decode_utf8_next line i = Some (ucast (line ! i), i + 1)"
  by (simp add: decode_utf8_next_def)

lemma lower_ascii_lt: "(c::byte) < 0x80 \<Longrightarrow> lower_ascii c < 0x80"
  by (auto simp: lower_ascii_def cmp_nat unat_word_ariths)

lemma d0_all: "\<forall>n \<in> set [144..<192]. pair_ok 0xD0 (of_nat n)"
  by (simp add: upt_conv_Cons pair_ok_def pair_cp_def fold_pair_def class_defs append_utf8_def to_lower_cp_def)
lemma d1_all: "\<forall>n \<in> set [128..<144]. pair_ok 0xD1 (of_nat n)"
  by (simp add: upt_conv_Cons pair_ok_def pair_cp_def fold_pair_def class_defs append_utf8_def to_lower_cp_def)

lemma yo_ok: "pair_ok 0xD0 0x81" "pair_ok 0xD1 0x91"
  by (simp_all add: pair_ok_def pair_cp_def fold_pair_def class_defs append_utf8_def to_lower_cp_def)

lemma byte_in_range:
  assumes "lo \<le> unat (b::byte)" "unat b < hi"
  shows "\<exists>n \<in> set [lo..<hi]. b = of_nat n"
  using assms by (intro bexI[of _ "unat b"]) auto

lemma cyr_letter_pair_ok:
  assumes "cyr_letter_pair b0 b1"
  shows "pair_ok b0 b1"
proof -
  from assms consider (a) "b0 = 0xD0" "0x90 \<le> b1" "b1 \<le> 0xBF" | (b) "b0 = 0xD0" "b1 = 0x81"
    | (c) "b0 = 0xD1" "0x80 \<le> b1" "b1 \<le> 0x8F" | (d) "b0 = 0xD1" "b1 = 0x91"
    by (auto simp: cyr_letter_pair_def)
  then show ?thesis
  proof cases
    case a
    then have "144 \<le> unat b1" "unat b1 < 192" by (simp_all add: word_le_nat_alt)
    from byte_in_range[OF this] d0_all a(1) show ?thesis by auto
  next
    case b
    then show ?thesis using yo_ok by simp
  next
    case c
    then have "128 \<le> unat b1" "unat b1 < 144" by (simp_all add: word_le_nat_alt)
    from byte_in_range[OF this] d1_all c(1) show ?thesis by auto
  next
    case d
    then show ?thesis using yo_ok by simp
  qed
qed

lemma cont_not_lead:
  assumes "(0x80::byte) \<le> b" "b \<le> 0xBF"
  shows "b \<noteq> 0xD0"
  using assms by (auto simp: word_le_nat_alt)

lemma lower_cyr2_pair:
  assumes "0x80 \<le> b1" "b1 \<le> 0xBF" "b0 = 0xD0 \<or> b0 = 0xD1"
  shows "lower_cyr2 (b0 # b1 # zs) = fold_pair b0 b1 @ lower_cyr2 zs"
proof -
  have u: "128 \<le> unat b1" "unat b1 \<le> 191" using assms by (simp_all add: word_le_nat_alt)
  have n1: "b1 \<noteq> 0xD0" using u by auto
  show ?thesis
  proof (cases "b0 = 0xD0")
    case False
    with assms(3) have "b0 = 0xD1" by simp
    then show ?thesis using n1 by (simp add: fold_pair_def lower_cyr2_other)
  next
    case True
    consider (x) "0x90 \<le> b1 \<and> b1 \<le> 0x9F"
      | (y) "\<not> (0x90 \<le> b1 \<and> b1 \<le> 0x9F)" "0xA0 \<le> b1 \<and> b1 \<le> 0xAF"
      | (z) "\<not> (0x90 \<le> b1 \<and> b1 \<le> 0x9F)" "\<not> (0xA0 \<le> b1 \<and> b1 \<le> 0xAF)" by blast
    then show ?thesis
    proof cases
      case x
      then have v: "144 \<le> unat b1" "unat b1 \<le> 159" by (simp_all add: word_le_nat_alt)
      have "unat (b1 + 0x20) = unat b1 + 32" using v by (simp add: unat_word_ariths)
      then have "b1 + 0x20 \<noteq> 0xD0" using v by (auto simp: word_unat_eq_iff)
      then have "lower_cyr2 ((b1 + 0x20) # zs) = (b1 + 0x20) # lower_cyr2 zs"
        by (rule lower_cyr2_other)
      then show ?thesis using True x by (auto simp: fold_pair_def)
    next
      case y
      then have v: "160 \<le> unat b1" "unat b1 \<le> 175" by (simp_all add: word_le_nat_alt)
      have "unat (b1 - 0x20) = unat b1 - 32" using v by (simp add: unat_sub word_le_nat_alt)
      then have "b1 - 0x20 \<noteq> 0xD0" using v by (auto simp: word_unat_eq_iff)
      then have "lower_cyr2 ((b1 - 0x20) # zs) = (b1 - 0x20) # lower_cyr2 zs"
        by (rule lower_cyr2_other)
      then show ?thesis using True y by (auto simp: fold_pair_def)
    next
      case z
      then show ?thesis using True n1 by (auto simp: fold_pair_def lower_cyr2_other)
    qed
  qed
qed

lemma cyr_letter_pair_range:
  "cyr_letter_pair b0 b1 \<Longrightarrow> 0x80 \<le> b1 \<and> b1 \<le> 0xBF \<and> (b0 = 0xD0 \<or> b0 = 0xD1) \<and> \<not> b0 < 0x80 \<and> \<not> b1 < 0x80"
  by (auto simp: cyr_letter_pair_def word_le_nat_alt word_less_nat_alt)

lemma lower_ascii_high: "\<not> (b::byte) < 0x80 \<Longrightarrow> lower_ascii b = b"
  by (auto simp: lower_ascii_def word_le_nat_alt word_less_nat_alt)

lemma lowercase_append:
  "ascii_cyr_line xs \<Longrightarrow> lowercase_inplace (xs @ ys) = lowercase_inplace xs @ lowercase_inplace ys"
proof (induction xs rule: ascii_cyr_line.induct)
  case 1
  then show ?case by (simp add: lowercase_inplace_def)
next
  case (2 b)
  then have "lower_ascii b \<noteq> 0xD0" by (auto dest: lower_ascii_lt lt_not_lead)
  then show ?case by (simp add: lowercase_inplace_def lower_cyr2_other)
next
  case (3 b0 b1 rest)
  show ?case
  proof (cases "b0 < 0x80")
    case True
    then have n: "lower_ascii b0 \<noteq> 0xD0" by (auto dest: lower_ascii_lt lt_not_lead)
    from True "3.prems" have "ascii_cyr_line (b1 # rest)" by simp
    from "3.IH"(1)[OF True this] have ih: "lower_cyr2 (map lower_ascii ((b1 # rest) @ ys))
       = lower_cyr2 (map lower_ascii (b1 # rest)) @ lower_cyr2 (map lower_ascii ys)"
      by (simp add: lowercase_inplace_def)
    have m: "map lower_ascii ((b0 # b1 # rest) @ ys) = lower_ascii b0 # map lower_ascii ((b1 # rest) @ ys)"
      by simp
    have m2: "map lower_ascii (b0 # b1 # rest) = lower_ascii b0 # map lower_ascii (b1 # rest)"
      by simp
    show ?thesis
      unfolding lowercase_inplace_def m m2 lower_cyr2_other[OF n] ih by simp
  next
    case False
    with "3.prems" have p: "cyr_letter_pair b0 b1" and r: "ascii_cyr_line rest" by simp_all
    from cyr_letter_pair_range[OF p] have rg: "0x80 \<le> b1" "b1 \<le> 0xBF" "b0 = 0xD0 \<or> b0 = 0xD1"
      and hi: "\<not> b0 < 0x80" "\<not> b1 < 0x80" by simp_all
    have l: "lower_ascii b0 = b0" "lower_ascii b1 = b1" using hi by (simp_all add: lower_ascii_high)
    from "3.IH"(2)[OF False r] have ih: "lower_cyr2 (map lower_ascii (rest @ ys))
       = lower_cyr2 (map lower_ascii rest) @ lower_cyr2 (map lower_ascii ys)"
      by (simp add: lowercase_inplace_def)
    have m: "map lower_ascii ((b0 # b1 # rest) @ ys) = b0 # b1 # map lower_ascii (rest @ ys)"
      by (simp add: l)
    have m2: "map lower_ascii (b0 # b1 # rest) = b0 # b1 # map lower_ascii rest"
      by (simp add: l)
    show ?thesis
      unfolding lowercase_inplace_def m m2 lower_cyr2_pair[OF rg] ih by simp
  qed
qed

lemma ascii_cyr_line_append:
  "ascii_cyr_line xs \<Longrightarrow> ascii_cyr_line ys \<Longrightarrow> ascii_cyr_line (xs @ ys)"
proof (induction xs rule: ascii_cyr_line.induct)
  case 1
  then show ?case by simp
next
  case (2 b)
  then show ?case by (cases ys) auto
next
  case (3 b0 b1 rest)
  then show ?case by (cases "b0 < 0x80") auto
qed

lemma tok_rel_nil: "tok_rel [] []"
  by (simp add: tok_rel_def lowercase_inplace_def)

lemma lower_ascii_digit: "0x30 \<le> lower_ascii c \<and> lower_ascii c \<le> 0x39 \<longleftrightarrow> is_ascii_digit8 c"
  by (auto simp: lower_ascii_def is_ascii_digit8_def word_le_nat_alt unat_word_ariths)

lemma tok_rel_ascii:
  assumes "tok_rel tok cur" "c < 0x80"
  shows "tok_rel (tok @ [lower_ascii c]) (cur @ [c])"
proof -
  from assms(1) have a: "ascii_cyr_line cur" and t: "tok = lowercase_inplace cur"
    by (simp_all add: tok_rel_def)
  have "ascii_cyr_line [c]" using assms(2) by simp
  then have 1: "ascii_cyr_line (cur @ [c])" using a by (intro ascii_cyr_line_append)
  have "lowercase_inplace [c] = [lower_ascii c]" by (simp add: lowercase_inplace_def)
  then have 2: "lowercase_inplace (cur @ [c]) = tok @ [lower_ascii c]"
    using lowercase_append[OF a, of "[c]"] t by simp
  show ?thesis unfolding tok_rel_def 2 using 1 lower_ascii_digit[of c] by simp
qed

lemma fold_pair_shape:
  assumes "cyr_letter_pair b0 b1"
  shows "\<exists>x y. fold_pair b0 b1 = [x, y] \<and> \<not> (0x30 \<le> y \<and> y \<le> 0x39)"
proof -
  from cyr_letter_pair_range[OF assms] have u: "128 \<le> unat b1" "unat b1 \<le> 191"
    by (simp_all add: word_le_nat_alt)
  consider (x) "b0 = 0xD0" "0x90 \<le> b1 \<and> b1 \<le> 0x9F"
    | (y) "b0 = 0xD0" "\<not> (0x90 \<le> b1 \<and> b1 \<le> 0x9F)" "0xA0 \<le> b1 \<and> b1 \<le> 0xAF"
    | (z) "b0 = 0xD0" "\<not> (0x90 \<le> b1 \<and> b1 \<le> 0x9F)" "\<not> (0xA0 \<le> b1 \<and> b1 \<le> 0xAF)" "b1 = 0x81"
    | (w) "b0 \<noteq> 0xD0 \<or> (\<not> (0x90 \<le> b1 \<and> b1 \<le> 0x9F) \<and> \<not> (0xA0 \<le> b1 \<and> b1 \<le> 0xAF) \<and> b1 \<noteq> 0x81)"
    by blast
  then show ?thesis
  proof cases
    case x
    then have v: "144 \<le> unat b1" "unat b1 \<le> 159" by (simp_all add: word_le_nat_alt)
    have "unat (b1 + 0x20) = unat b1 + 32" using v by (simp add: unat_word_ariths)
    then have "\<not> (0x30 \<le> b1 + 0x20 \<and> b1 + 0x20 \<le> 0x39)" using v by (simp add: word_le_nat_alt)
    then show ?thesis using x by (auto simp: fold_pair_def)
  next
    case y
    then have v: "160 \<le> unat b1" "unat b1 \<le> 175" by (simp_all add: word_le_nat_alt)
    have "unat (b1 - 0x20) = unat b1 - 32" using v by (simp add: unat_sub word_le_nat_alt)
    then have "\<not> (0x30 \<le> b1 - 0x20 \<and> b1 - 0x20 \<le> 0x39)" using v by (simp add: word_le_nat_alt) arith
    then show ?thesis using y by (auto simp: fold_pair_def)
  next
    case z
    then show ?thesis by (simp add: fold_pair_def)
  next
    case w
    have "\<not> (0x30 \<le> b1 \<and> b1 \<le> 0x39)" using u by (simp add: word_le_nat_alt)
    then show ?thesis using w by (auto simp: fold_pair_def)
  qed
qed

lemma tok_rel_pair:
  assumes "tok_rel tok cur" "cyr_letter_pair b0 b1"
  shows "tok_rel (tok @ fold_pair b0 b1) (cur @ [b0, b1])"
proof -
  from assms(1) have a: "ascii_cyr_line cur" and t: "tok = lowercase_inplace cur"
    by (simp_all add: tok_rel_def)
  from cyr_letter_pair_range[OF assms(2)] have rg: "0x80 \<le> b1" "b1 \<le> 0xBF" "b0 = 0xD0 \<or> b0 = 0xD1"
    and hi: "\<not> b0 < 0x80" "\<not> b1 < 0x80" by simp_all
  have "ascii_cyr_line [b0, b1]" using assms(2) hi by simp
  then have 1: "ascii_cyr_line (cur @ [b0, b1])" using a by (intro ascii_cyr_line_append)
  have "lowercase_inplace [b0, b1] = lower_cyr2 [b0, b1]"
    using hi by (simp add: lowercase_inplace_def lower_ascii_high)
  also have "\<dots> = fold_pair b0 b1" using lower_cyr2_pair[OF rg, of "[]"] by simp
  finally have 2: "lowercase_inplace (cur @ [b0, b1]) = tok @ fold_pair b0 b1"
    using lowercase_append[OF a, of "[b0, b1]"] t by simp
  from fold_pair_shape[OF assms(2)] obtain x y where
    f: "fold_pair b0 b1 = [x, y]" "\<not> (0x30 \<le> y \<and> y \<le> 0x39)" by blast
  have d: "\<not> is_ascii_digit8 b1" using hi(2) by (auto simp: is_ascii_digit8_def word_le_nat_alt word_less_nat_alt)
  show ?thesis unfolding tok_rel_def 2 using 1 f d by simp
qed

lemma drop_nth_Cons: "i < length xs \<Longrightarrow> drop i xs = xs ! i # drop (Suc i) xs"
  by (simp add: Cons_nth_drop_Suc)

lemma line_at:
  assumes "ascii_cyr_line (drop j line)" "j < length line"
  shows "(line ! j < 0x80 \<and> ascii_cyr_line (drop (j + 1) line))
       \<or> (\<not> line ! j < 0x80 \<and> j + 1 < length line \<and> cyr_letter_pair (line ! j) (line ! (j + 1))
            \<and> ascii_cyr_line (drop (j + 2) line))"
proof (cases "j + 1 < length line")
  case False
  with assms(2) have "drop j line = [line ! j]" by (simp add: drop_nth_Cons)
  with assms(1) False show ?thesis by simp
next
  case True
  then have "drop j line = line ! j # line ! (j + 1) # drop (j + 2) line"
    using assms(2) by (simp add: drop_nth_Cons)
  with assms(1) True show ?thesis
    by (cases "line ! j < 0x80") (simp_all add: drop_nth_Cons)
qed

lemma apostrophe_digit_Cons: "apostrophe_digit xs \<Longrightarrow> apostrophe_digit (x # xs)"
  by (cases xs) auto

lemma apostrophe_digit_drop: "apostrophe_digit (drop k xs) \<Longrightarrow> apostrophe_digit xs"
proof (induction k arbitrary: xs)
  case 0
  then show ?case by simp
next
  case (Suc k)
  show ?case
  proof (cases xs)
    case Nil
    with Suc.prems show ?thesis by simp
  next
    case (Cons x xs')
    with Suc.prems have "apostrophe_digit (drop k xs')" by simp
    then have "apostrophe_digit xs'" by (rule Suc.IH)
    then show ?thesis unfolding Cons by (rule apostrophe_digit_Cons)
  qed
qed

lemma no_apostrophe_digit_later:
  "\<not> apostrophe_digit (drop i line) \<Longrightarrow> \<not> apostrophe_digit (drop (i + k) line)"
  using apostrophe_digit_drop[of k "drop i line"] by (auto simp: add.commute)

lemma apostrophe_next:
  assumes "\<not> apostrophe_digit (drop i line)" "i + 1 < length line" "line ! i = 0x27"
  shows "\<not> is_ascii_digit8 (line ! (i + 1))"
proof -
  have "drop i line = line ! i # line ! (i + 1) # drop (i + 2) line"
    using assms(2) by (simp add: drop_nth_Cons)
  with assms(1,3) show ?thesis by simp
qed

lemma pair_lead:
  assumes "b0 = 0xD0 \<or> b0 = (0xD1::byte)"
  shows "\<not> b0 < 0x80 \<and> b0 AND 0xE0 = 0xC0 \<and> \<not> is_ascii_alnum b0 \<and> \<not> is_ascii_digit8 b0
     \<and> b0 \<noteq> 0x2D \<and> b0 \<noteq> 0x2B \<and> b0 \<noteq> 0x27 \<and> b0 \<noteq> 0x2E"
  using assms by (auto simp: is_ascii_alnum_def is_ascii_alpha_def is_ascii_digit8_def)

lemma decode_pair:
  assumes "j + 1 < length line" "cyr_letter_pair (line ! j) (line ! (j + 1))"
  shows "decode_utf8_next line j = Some (pair_cp (line ! j) (line ! (j + 1)), j + 2)"
proof -
  from cyr_letter_pair_range[OF assms(2)] have l: "line ! j = 0xD0 \<or> line ! j = 0xD1" by simp
  from cyr_letter_pair_ok[OF assms(2)] have c: "line ! (j + 1) AND 0xC0 = 0x80"
    by (simp add: pair_ok_def)
  from pair_lead[OF l] c assms(1) show ?thesis
    by (simp add: decode_utf8_next_def pair_cp_def Let_def)
qed

lemma ascii_not_cyr2: "i < length line \<Longrightarrow> line ! i < 0x80 \<Longrightarrow> \<not> is_cyr2_start line i"
  by (auto simp: is_cyr2_start_def Let_def word_less_nat_alt)

lemma pair_cyr2:
  assumes "j + 1 < length line" "cyr_letter_pair (line ! j) (line ! (j + 1))"
  shows "is_cyr2_start line j"
  using assms cyr_letter_pair_range[OF assms(2)] by (auto simp: is_cyr2_start_def Let_def)

lemma next_class:
  assumes "ascii_cyr_line (drop j line)"
  shows "case decode_utf8_next line j of
           None \<Rightarrow> \<not> j < length line \<and> \<not> is_tok_start line j
         | Some (n, k) \<Rightarrow> j < length line
             \<and> (is_alnum n \<longleftrightarrow> is_tok_start line j)
             \<and> (is_ascii_digit n \<longleftrightarrow> is_ascii_digit8 (line ! j))
             \<and> (is_letter n \<longleftrightarrow> is_tok_start line j \<and> \<not> is_ascii_digit8 (line ! j))"
proof (cases "j < length line")
  case False
  then show ?thesis by (simp add: decode_utf8_next_def is_tok_start_def)
next
  case True
  from line_at[OF assms True] show ?thesis
  proof
    assume a: "line ! j < 0x80 \<and> ascii_cyr_line (drop (j + 1) line)"
    then have c: "line ! j < 0x80" by simp
    have "is_ascii_alpha (line ! j) \<longleftrightarrow> is_ascii_alnum (line ! j) \<and> \<not> is_ascii_digit8 (line ! j)"
      by (auto simp: is_ascii_alnum_def is_ascii_alpha_def is_ascii_digit8_def word_le_nat_alt)
    then show ?thesis
      using True c ascii_not_cyr2[OF True c]
      by (simp add: decode_ascii is_tok_start_def ascii_alnum ascii_digit ascii_letter)
  next
    assume a: "\<not> line ! j < 0x80 \<and> j + 1 < length line \<and> cyr_letter_pair (line ! j) (line ! (j + 1))
            \<and> ascii_cyr_line (drop (j + 2) line)"
    then have p: "cyr_letter_pair (line ! j) (line ! (j + 1))" and l: "j + 1 < length line" by simp_all
    from cyr_letter_pair_range[OF p] have ld: "line ! j = 0xD0 \<or> line ! j = 0xD1" by simp
    from cyr_letter_pair_ok[OF p] have ok: "is_letter (pair_cp (line ! j) (line ! (j + 1)))"
      "\<not> is_ascii_digit (pair_cp (line ! j) (line ! (j + 1)))" by (simp_all add: pair_ok_def)
    show ?thesis
      using True ok pair_cyr2[OF l p] pair_lead[OF ld]
      by (simp add: decode_pair[OF l p] is_tok_start_def is_alnum_def)
  qed
qed

lemma cp_step_ascii:
  assumes "i < length line" "line ! i < 0x80"
  shows "tokenize_cp_loop line i tok out =
    (let c = line ! i;
         nxt = decode_utf8_next line (i + 1);
         has_next = (nxt \<noteq> None);
         nx = (case nxt of None \<Rightarrow> 0 | Some (n, k) \<Rightarrow> n)
     in if is_ascii_alnum c then tokenize_cp_loop line (i + 1) (tok @ [lower_ascii c]) out
        else if c = 0x2D \<and> tok \<noteq> [] \<and> has_next \<and> is_alnum nx then
          tokenize_cp_loop line (i + 1) (tok @ [c]) out
        else if c = 0x2B \<and> tok \<noteq> [] \<and> has_next \<and> is_alnum nx then
          tokenize_cp_loop line (i + 1) (tok @ [c]) out
        else if c = 0x2E \<and> (tok \<noteq> [] \<and> 0x30 \<le> last tok \<and> last tok \<le> 0x39)
                  \<and> (has_next \<and> is_ascii_digit nx) then
          tokenize_cp_loop line (i + 1) (tok @ [c]) out
        else if c = 0x27 \<and> tok \<noteq> [] \<and> has_next \<and> is_letter nx then
          tokenize_cp_loop line (i + 1) (tok @ [c]) out
        else tokenize_cp_loop line (i + 1) [] (flush_tok tok out))"
proof -
  let ?c = "line ! i"
  have low: "append_utf8 (to_lower_cp (ucast ?c)) = [lower_ascii ?c]"
    using assms(2) by (simp add: ascii_lower ascii_append lower_ascii_lt)
  have app: "append_utf8 (ucast ?c) = [?c]" using assms(2) by (rule ascii_append)
  show ?thesis
    apply (subst tokenize_cp_loop.simps)
    apply (simp only: assms(1) if_True decode_ascii[OF assms] option.case prod.case Let_def
        ascii_alnum[OF assms(2)] ascii_hyphen[OF assms(2)] ascii_apostrophe[OF assms(2)]
        ascii_plus ascii_dot low app)
    done
qed

lemma cp_step_pair:
  assumes "j + 1 < length line" "cyr_letter_pair (line ! j) (line ! (j + 1))"
  shows "tokenize_cp_loop line j tok out
       = tokenize_cp_loop line (j + 2) (tok @ fold_pair (line ! j) (line ! (j + 1))) out"
proof -
  from cyr_letter_pair_ok[OF assms(2)]
  have ok: "is_alnum (pair_cp (line ! j) (line ! (j + 1)))"
    "append_utf8 (to_lower_cp (pair_cp (line ! j) (line ! (j + 1)))) = fold_pair (line ! j) (line ! (j + 1))"
    by (simp_all add: pair_ok_def is_alnum_def)
  have l: "j < length line" using assms(1) by simp
  show ?thesis
    apply (subst tokenize_cp_loop.simps)
    apply (simp only: l if_True decode_pair[OF assms] option.case prod.case Let_def ok)
    done
qed

lemma b_step_ascii:
  assumes "i < length line" "line ! i < 0x80"
  shows "tokenize_loop line i cur out =
    (let c = line ! i
     in if is_ascii_alnum c then tokenize_loop line (i + 1) (cur @ [c]) out
        else if cur \<noteq> [] \<and> (c = 0x2D \<or> c = 0x2B \<or> c = 0x27) \<and> is_tok_start line (i + 1) then
          tokenize_loop line (i + 1) (cur @ [c]) out
        else if cur \<noteq> [] \<and> c = 0x2E \<and> is_ascii_digit8 (last cur) \<and> i + 1 < length line
                  \<and> is_ascii_digit8 (line ! (i + 1)) then
          tokenize_loop line (i + 1) (cur @ [0x2E]) out
        else tokenize_loop line (i + 1) [] (flush cur out))"
  apply (subst tokenize_loop.simps)
  apply (simp only: assms(1) if_True Let_def ascii_not_cyr2[OF assms] if_False)
  done

lemma b_step_pair:
  assumes "j + 1 < length line" "cyr_letter_pair (line ! j) (line ! (j + 1))"
  shows "tokenize_loop line j cur out
       = tokenize_loop line (j + 2) (cur @ [line ! j, line ! (j + 1)]) out"
proof -
  from cyr_letter_pair_range[OF assms(2)] have ld: "line ! j = 0xD0 \<or> line ! j = 0xD1" by simp
  have l: "j < length line" using assms(1) by simp
  have na: "\<not> is_ascii_alnum (line ! j)" using pair_lead[OF ld] by simp
  show ?thesis
    apply (subst tokenize_loop.simps)
    apply (simp only: l if_True Let_def na if_False pair_cyr2[OF assms])
    done
qed

lemma flush_agree: "tok_rel tok cur \<Longrightarrow> flush_tok tok out = flush cur out"
  by (auto simp: tok_rel_def flush_tok_def flush_def)

lemma loops_end: "\<not> i < length line \<Longrightarrow> tok_rel tok cur \<Longrightarrow>
    tokenize_cp_loop line i tok out = tokenize_loop line i cur out"
  apply (subst tokenize_cp_loop.simps)
  apply (subst tokenize_loop.simps)
  apply (simp add: flush_agree)
  done

lemma joiner_lower: "c = 0x2D \<or> c = 0x2B \<or> c = 0x27 \<or> c = (0x2E::byte) \<Longrightarrow> lower_ascii c = c"
  by (auto simp: lower_ascii_def)

lemma loops_agree:
  assumes "ascii_cyr_line (drop i line)" "\<not> apostrophe_digit (drop i line)" "tok_rel tok cur"
  shows "tokenize_cp_loop line i tok out = tokenize_loop line i cur out"
  using assms
proof (induction "length line - i" arbitrary: i tok cur out rule: less_induct)
  case less
  show ?case
  proof (cases "i < length line")
    case False
    then show ?thesis using less.prems(3) by (rule loops_end)
  next
    case True
    from line_at[OF less.prems(1) True] show ?thesis
    proof
      assume a: "\<not> line ! i < 0x80 \<and> i + 1 < length line \<and> cyr_letter_pair (line ! i) (line ! (i + 1))
            \<and> ascii_cyr_line (drop (i + 2) line)"
      then have l: "i + 1 < length line" and p: "cyr_letter_pair (line ! i) (line ! (i + 1))"
        and w: "ascii_cyr_line (drop (i + 2) line)" by simp_all
      have m: "length line - (i + 2) < length line - i" using l by simp
      have n: "\<not> apostrophe_digit (drop (i + 2) line)"
        using less.prems(2) by (rule no_apostrophe_digit_later)
      have r: "tok_rel (tok @ fold_pair (line ! i) (line ! (i + 1))) (cur @ [line ! i, line ! (i + 1)])"
        using less.prems(3) p by (rule tok_rel_pair)
      show ?thesis
        unfolding cp_step_pair[OF l p] b_step_pair[OF l p]
        using m w n r by (rule less.hyps)
    next
      assume a: "line ! i < 0x80 \<and> ascii_cyr_line (drop (i + 1) line)"
      then have c: "line ! i < 0x80" and w: "ascii_cyr_line (drop (i + 1) line)" by simp_all
      let ?c = "line ! i"
      let ?nxt = "decode_utf8_next line (i + 1)"
      let ?hn = "?nxt \<noteq> None"
      let ?nx = "case ?nxt of None \<Rightarrow> 0 | Some (n, k) \<Rightarrow> n"
      have m: "length line - (i + 1) < length line - i" using True by simp
      have n: "\<not> apostrophe_digit (drop (i + 1) line)"
        using less.prems(2) by (rule no_apostrophe_digit_later)
      have IH: "tokenize_cp_loop line (i + 1) tok' out' = tokenize_loop line (i + 1) cur' out'"
        if "tok_rel tok' cur'" for tok' cur' out'
        using m w n that by (rule less.hyps)
      have e1: "tokenize_cp_loop line (i + 1) (tok @ [lower_ascii ?c]) out
              = tokenize_loop line (i + 1) (cur @ [?c]) out"
        by (rule IH) (rule tok_rel_ascii[OF less.prems(3) c])
      have e2: "tokenize_cp_loop line (i + 1) (tok @ [?c]) out
              = tokenize_loop line (i + 1) (cur @ [?c]) out"
        if "?c = 0x2D \<or> ?c = 0x2B \<or> ?c = 0x27 \<or> ?c = 0x2E"
        using e1 joiner_lower[OF that] by simp
      have e3: "tokenize_cp_loop line (i + 1) [] (flush_tok tok out)
              = tokenize_loop line (i + 1) [] (flush cur out)"
        unfolding flush_agree[OF less.prems(3)] by (rule IH) (rule tok_rel_nil)
      from less.prems(3) have ne: "tok \<noteq> [] \<longleftrightarrow> cur \<noteq> []"
        and dg: "(tok \<noteq> [] \<and> 0x30 \<le> last tok \<and> last tok \<le> 0x39) \<longleftrightarrow> (cur \<noteq> [] \<and> is_ascii_digit8 (last cur))"
        unfolding tok_rel_def by blast+
      from next_class[OF w]
      have k1: "(?hn \<and> is_alnum ?nx) \<longleftrightarrow> is_tok_start line (i + 1)"
        and k2: "(?hn \<and> is_ascii_digit ?nx) \<longleftrightarrow> (i + 1 < length line \<and> is_ascii_digit8 (line ! (i + 1)))"
        and k3: "(?hn \<and> is_letter ?nx) \<longleftrightarrow> (is_tok_start line (i + 1) \<and> \<not> is_ascii_digit8 (line ! (i + 1)))"
        by (auto split: option.splits simp: is_tok_start_def)
      have k4: "(?hn \<and> is_letter ?nx) \<longleftrightarrow> is_tok_start line (i + 1)" if "?c = 0x27"
      proof -
        have "\<not> is_ascii_digit8 (line ! (i + 1))" if "is_tok_start line (i + 1)"
        proof -
          from that have "i + 1 < length line" by (auto simp: is_tok_start_def split: if_splits)
          with less.prems(2) \<open>?c = 0x27\<close> show ?thesis by (intro apostrophe_next)
        qed
        with k3 show ?thesis by blast
      qed
      show ?thesis
      proof (cases "is_ascii_alnum ?c")
        case True
        then show ?thesis
          unfolding cp_step_ascii[OF \<open>i < length line\<close> c] b_step_ascii[OF \<open>i < length line\<close> c] Let_def
          using e1 by simp
      next
        case False
        consider (join) "cur \<noteq> []" "?c = 0x2D \<or> ?c = 0x2B \<or> ?c = 0x27" "is_tok_start line (i + 1)"
          | (dot) "cur \<noteq> []" "?c = 0x2E" "is_ascii_digit8 (last cur)" "i + 1 < length line"
              "is_ascii_digit8 (line ! (i + 1))"
          | (other) "\<not> (cur \<noteq> [] \<and> (?c = 0x2D \<or> ?c = 0x2B \<or> ?c = 0x27) \<and> is_tok_start line (i + 1))"
              "\<not> (cur \<noteq> [] \<and> ?c = 0x2E \<and> is_ascii_digit8 (last cur) \<and> i + 1 < length line
                  \<and> is_ascii_digit8 (line ! (i + 1)))"
          by blast
        then show ?thesis
        proof cases
          case join
          have b: "tokenize_loop line i cur out = tokenize_loop line (i + 1) (cur @ [?c]) out"
            unfolding b_step_ascii[OF \<open>i < length line\<close> c] Let_def using False join by simp
          have t: "tok \<noteq> []" using ne join(1) by simp
          have h: "?hn \<and> is_alnum ?nx" using k1 join(3) by simp
          have h': "?c = 0x27 \<Longrightarrow> ?hn \<and> is_letter ?nx" using k4 join(3) by simp
          have "tokenize_cp_loop line i tok out = tokenize_cp_loop line (i + 1) (tok @ [?c]) out"
            unfolding cp_step_ascii[OF \<open>i < length line\<close> c] Let_def
            using False join(2) t h h' by auto
          moreover have "tokenize_cp_loop line (i + 1) (tok @ [?c]) out
              = tokenize_loop line (i + 1) (cur @ [?c]) out"
            using join(2) by (intro e2) blast
          ultimately show ?thesis using b by simp
        next
          case dot
          have b: "tokenize_loop line i cur out = tokenize_loop line (i + 1) (cur @ [?c]) out"
            unfolding b_step_ascii[OF \<open>i < length line\<close> c] Let_def using False dot by simp
          have d1: "tok \<noteq> [] \<and> 0x30 \<le> last tok \<and> last tok \<le> 0x39" using dg dot(1,3) by simp
          have d2: "?hn \<and> is_ascii_digit ?nx" using k2 dot(4,5) by simp
          have "tokenize_cp_loop line i tok out = tokenize_cp_loop line (i + 1) (tok @ [?c]) out"
            unfolding cp_step_ascii[OF \<open>i < length line\<close> c] Let_def
            using False dot(2) d1 d2 by simp
          moreover have "tokenize_cp_loop line (i + 1) (tok @ [?c]) out
              = tokenize_loop line (i + 1) (cur @ [?c]) out"
            using dot(2) by (intro e2) blast
          ultimately show ?thesis using b by simp
        next
          case other
          have b: "tokenize_loop line i cur out = tokenize_loop line (i + 1) [] (flush cur out)"
            unfolding b_step_ascii[OF \<open>i < length line\<close> c] Let_def
            by (simp only: False other if_False)
          have n1: "\<not> (?c = 0x2D \<and> tok \<noteq> [] \<and> ?hn \<and> is_alnum ?nx)"
            using other(1) ne k1 by blast
          have n2: "\<not> (?c = 0x2B \<and> tok \<noteq> [] \<and> ?hn \<and> is_alnum ?nx)"
            using other(1) ne k1 by blast
          have n3: "\<not> (?c = 0x2E \<and> (tok \<noteq> [] \<and> 0x30 \<le> last tok \<and> last tok \<le> 0x39)
                  \<and> (?hn \<and> is_ascii_digit ?nx))"
            using other(2) dg k2 by blast
          have n4: "\<not> (?c = 0x27 \<and> tok \<noteq> [] \<and> ?hn \<and> is_letter ?nx)"
            using other(1) ne k4 by blast
          have "tokenize_cp_loop line i tok out = tokenize_cp_loop line (i + 1) [] (flush_tok tok out)"
            unfolding cp_step_ascii[OF \<open>i < length line\<close> c] Let_def
            by (simp only: False n1 n2 n3 n4 if_False)
          with b e3 show ?thesis by simp
        qed
      qed
    qed
  qed
qed


text \<open>
  Claim C7, as the code has it. On a line made of ASCII bytes and of well-formed two-byte
  Cyrillic letters, in which no apostrophe is directly followed by an ASCII digit, the
  codepoint-level tokenizer and the byte-level tokenizer emit the same tokens.
\<close>

theorem tokenizers_agree:
  assumes "ascii_cyr_line line" "\<not> apostrophe_digit line"
  shows "tokenize_line_cp line = tokenize_line line"
  unfolding tokenize_line_cp_def tokenize_line_def
  using assms tok_rel_nil by (intro loops_agree) simp_all

theorem tokenizers_agree_witness:
  "ascii_cyr_line (bytes_of ''Don't stop-now, '' @ [0xD0, 0x9C, 0xD0, 0xB8, 0xD1, 0x80])
    \<and> \<not> apostrophe_digit (bytes_of ''Don't stop-now, '' @ [0xD0, 0x9C, 0xD0, 0xB8, 0xD1, 0x80])
    \<and> tokenize_line_cp (bytes_of ''Don't stop-now, '' @ [0xD0, 0x9C, 0xD0, 0xB8, 0xD1, 0x80])
        = tokenize_line (bytes_of ''Don't stop-now, '' @ [0xD0, 0x9C, 0xD0, 0xB8, 0xD1, 0x80])
    \<and> tokenize_line (bytes_of ''Don't stop-now, '' @ [0xD0, 0x9C, 0xD0, 0xB8, 0xD1, 0x80])
        = [bytes_of ''don't'', bytes_of ''stop-now'', [0xD0, 0xBC, 0xD0, 0xB8, 0xD1, 0x80]]"
proof -
  let ?l = "bytes_of ''Don't stop-now, '' @ [0xD0, 0x9C, 0xD0, 0xB8, 0xD1, 0x80]"
  have a: "ascii_cyr_line ?l" by (simp add: bytes_of_def cyr_letter_pair_def)
  have b: "\<not> apostrophe_digit ?l" by (simp add: bytes_of_def is_ascii_digit8_def)
  have c: "tokenize_line ?l
      = [bytes_of ''don't'', bytes_of ''stop-now'', [0xD0, 0xBC, 0xD0, 0xB8, 0xD1, 0x80]]"
    by (simp add: tok_defs)
  from tokenizers_agree[OF a b] a b c show ?thesis by simp
qed

text \<open>
  C7 as stated fails on the ASCII line \<open>a'1\<close>: after an apostrophe the codepoint-level
  tokenizer asks for a letter and the byte-level one accepts a digit too.
\<close>

theorem tokenizers_differ_counterexample:
  "ascii_cyr_line (bytes_of ''a'1'')
    \<and> tokenize_line_cp (bytes_of ''a'1'') = [bytes_of ''a'', bytes_of ''1'']
    \<and> tokenize_line (bytes_of ''a'1'') = [bytes_of ''a'1'']
    \<and> tokenize_line_cp (bytes_of ''a'1'') \<noteq> tokenize_line (bytes_of ''a'1'')"
proof -
  have "ascii_cyr_line (bytes_of ''a'1'')" by (simp add: bytes_of_def)
  then show ?thesis by (simp add: tokenize_cp_sample tokenize_sample)
qed

end
